theory Spec2Isabelle
  imports Complex_Main "HOL-Library.Word" "HOL-Library.Sublist"
begin

section \<open>The fetch tool of Better Fetch (src/index.ts)\<close>

text \<open>
  The repository registers one tool, \<open>fetch\<close>, whose handler is the asynchronous arrow
  function of lines 37 to 147 of \<open>src/index.ts\<close>. This theory embeds that handler.
  Everything the handler obtains from outside (the readiness promise of the WASM
  module, the network, the body of the response, the conversion engine) is a parameter
  of the model, so that every theorem holds for every behaviour of those collaborators.
\<close>

subsection \<open>JavaScript strings and numbers\<close>

text \<open>
  A JavaScript string is a sequence of UTF-16 code units: \<open>length\<close>, \<open>substring\<close>,
  \<open>includes\<close> and regular expressions without the \<open>u\<close> flag all work on code units.
\<close>

type_synonym jschar = "16 word"
type_synonym jsstring = "jschar list"

definition jschr :: "char \<Rightarrow> jschar" where
  "jschr c = of_nat (of_char c)"

definition lit :: "string \<Rightarrow> jsstring" where
  "lit s = map jschr s"

definition NL :: jschar where
  "NL = 0x0A"

text \<open>
  A value of type \<open>number\<close>. The schema of \<open>maxLength\<close> is \<open>z.number().optional()\<close>, so
  the handler may receive any number, not only a positive integer. Every finite double
  is a rational.
\<close>

datatype jsnum = Num rat | NaN | PosInf | NegInf

text \<open>\<open>ToBoolean\<close> on a number: \<open>0\<close>, \<open>-0\<close> and \<open>NaN\<close> are falsy.\<close>

fun truthy :: "jsnum \<Rightarrow> bool" where
  "truthy (Num r) = (r \<noteq> 0)"
| "truthy NaN = False"
| "truthy PosInf = True"
| "truthy NegInf = True"

text \<open>The comparison \<open>n > m\<close> of a string length \<open>n\<close> with a number \<open>m\<close>.\<close>

fun length_gt :: "nat \<Rightarrow> jsnum \<Rightarrow> bool" where
  "length_gt n (Num r) = (r < of_nat n)"
| "length_gt n NaN = False"
| "length_gt n PosInf = False"
| "length_gt n NegInf = True"

text \<open>
  \<open>s.substring(0, m)\<close>: the end index is \<open>ToIntegerOrInfinity(m)\<close> (truncation towards
  zero, \<open>NaN\<close> becomes \<open>0\<close>) clamped to the interval from \<open>0\<close> to the length of \<open>s\<close>.
\<close>

fun substring0 :: "jsstring \<Rightarrow> jsnum \<Rightarrow> jsstring" where
  "substring0 s (Num r) = take (nat \<lfloor>r\<rfloor>) s"
| "substring0 s NaN = []"
| "substring0 s PosInf = s"
| "substring0 s NegInf = []"

text \<open>\<open>s.includes(sub)\<close>: \<open>sub\<close> occurs in \<open>s\<close> as a contiguous run of code units.\<close>

fun is_prefix :: "jsstring \<Rightarrow> jsstring \<Rightarrow> bool" where
  "is_prefix [] s = True"
| "is_prefix (p # ps) [] = False"
| "is_prefix (p # ps) (c # cs) = (p = c \<and> is_prefix ps cs)"

fun includes_str :: "jsstring \<Rightarrow> jsstring \<Rightarrow> bool" where
  "includes_str [] sub = is_prefix sub []"
| "includes_str (c # cs) sub = (is_prefix sub (c # cs) \<or> includes_str cs sub)"

text \<open>
  The decimal text of a status code, as the template literal produces it for a
  non-negative integer.
\<close>

definition digit :: "nat \<Rightarrow> jschar" where
  "digit d = of_nat (48 + d)"

fun number_to_string :: "nat \<Rightarrow> jsstring" where
  "number_to_string n =
     (if n < 10 then [digit n] else number_to_string (n div 10) @ [digit (n mod 10)])"

declare number_to_string.simps [simp del]

subsection \<open>The three regular expressions of the post-processing\<close>

text \<open>
  \<open>/\[([^\]]+)\]\([^)]+\)/\<close> tried at the start of \<open>s\<close>. The label \<open>[^\]]+\<close> is greedy
  and cannot step over a closing bracket, so it is the run up to the first \<open>]\<close>; giving
  characters back never helps, since the character after a shorter label is not \<open>]\<close>.
  The target \<open>[^)]+\<close> is the run up to the first \<open>)\<close> in the same way. Both runs must be
  non-empty, and a negated class also matches line breaks. The result is the text of
  group 1 and what follows the match.
\<close>

definition match_link :: "jsstring \<Rightarrow> (jsstring \<times> jsstring) option" where
  "match_link s =
     (case s of
        [] \<Rightarrow> None
      | c # t \<Rightarrow>
          if c \<noteq> jschr CHR ''['' then None
          else
            let label = takeWhile (\<lambda>x. x \<noteq> jschr CHR '']'') t;
                after_label = dropWhile (\<lambda>x. x \<noteq> jschr CHR '']'') t
            in if label = [] then None
               else (case after_label of
                       rb # lp # u \<Rightarrow>
                         if lp \<noteq> jschr CHR ''('' then None
                         else
                           let target = takeWhile (\<lambda>x. x \<noteq> jschr CHR '')'') u;
                               after_target = dropWhile (\<lambda>x. x \<noteq> jschr CHR '')'') u
                           in if target = [] then None
                              else (case after_target of
                                      [] \<Rightarrow> None
                                    | rp # rest \<Rightarrow> Some (label, rest))
                     | _ \<Rightarrow> None))"

lemma match_link_shorter:
  assumes "match_link s = Some (label, rest)"
  shows "length rest < length s"
proof -
  from assms obtain c t where s: "s = c # t"
    by (cases s) (auto simp: match_link_def)
  let ?a = "dropWhile (\<lambda>x. x \<noteq> jschr CHR '']'') t"
  from assms s obtain rb lp u where a: "?a = rb # lp # u"
    by (auto simp: match_link_def Let_def split: if_splits list.splits)
  let ?b = "dropWhile (\<lambda>x. x \<noteq> jschr CHR '')'') u"
  from assms s a obtain rp where b: "?b = rp # rest"
    by (auto simp: match_link_def Let_def split: if_splits list.splits)
  have "length ?b \<le> length u" by (rule length_dropWhile_le)
  moreover have "length ?a \<le> length t" by (rule length_dropWhile_le)
  ultimately show ?thesis using s a b by simp
qed

text \<open>
  \<open>markdown.replace(/\[([^\]]+)\]\([^)]+\)/g, "$1")\<close>: one scan from left to right. Where
  the expression matches, the match is replaced by its group 1 and the scan resumes after
  the match; elsewhere one code unit is copied and the scan moves on by one.
\<close>

function strip_links :: "jsstring \<Rightarrow> jsstring" where
  "strip_links [] = []"
| "strip_links (c # t) =
     (case match_link (c # t) of
        Some (label, rest) \<Rightarrow> label @ strip_links rest
      | None \<Rightarrow> c # strip_links t)"
  by pat_completeness auto
termination
  by (relation "measure length") (auto dest: match_link_shorter)

text \<open>
  \<open>.replace(/\n{4,}/g, "\n\n\n")\<close>: the greedy quantifier takes the whole run of line feeds
  that starts at the scan position; a run of four or more becomes three line feeds.
\<close>

function collapse_newlines :: "jsstring \<Rightarrow> jsstring" where
  "collapse_newlines [] = []"
| "collapse_newlines (c # t) =
     (if 4 \<le> length (takeWhile (\<lambda>x. x = NL) (c # t))
      then [NL, NL, NL] @ collapse_newlines (dropWhile (\<lambda>x. x = NL) (c # t))
      else c # collapse_newlines t)"
  by pat_completeness auto
termination
proof (relation "measure length", goal_cases)
  case 1
  show ?case by simp
next
  case (2 c t)
  then have "c = NL" by (auto split: if_splits)
  then have "dropWhile (\<lambda>x. x = NL) (c # t) = dropWhile (\<lambda>x. x = NL) t" by simp
  moreover have "length (dropWhile (\<lambda>x. x = NL) t) \<le> length t" by (rule length_dropWhile_le)
  ultimately show ?case by simp
next
  case (3 c t)
  show ?case by simp
qed

text \<open>
  The class \<open>\s\<close> of a regular expression without the \<open>u\<close> flag: the white space and
  the line terminators of ECMAScript. The class \<open>[\s\n]\<close> of the source is the same set,
  the line feed being in \<open>\s\<close> already.
\<close>

definition is_space :: "jschar \<Rightarrow> bool" where
  "is_space c \<longleftrightarrow>
     c = 0x09 \<or> c = 0x0A \<or> c = 0x0B \<or> c = 0x0C \<or> c = 0x0D \<or> c = 0x20 \<or> c = 0xA0 \<or>
     c = 0x1680 \<or> (0x2000 \<le> c \<and> c \<le> 0x200A) \<or> c = 0x2028 \<or> c = 0x2029 \<or>
     c = 0x202F \<or> c = 0x205F \<or> c = 0x3000 \<or> c = 0xFEFF"

text \<open>\<open>.replace(/^[\s\n]+/, "")\<close>: without the \<open>m\<close> flag \<open>^\<close> is the start of the text.\<close>

definition trim_start :: "jsstring \<Rightarrow> jsstring" where
  "trim_start s = dropWhile is_space s"

text \<open>
  \<open>.replace(/[\s\n]+$/, "")\<close>: without the \<open>m\<close> flag \<open>$\<close> is the end of the text. The
  leftmost match is the longest run of white space that reaches the end.
\<close>

definition trim_end :: "jsstring \<Rightarrow> jsstring" where
  "trim_end s = rev (dropWhile is_space (rev s))"

text \<open>Lines 120 to 123: the three replacements in their order.\<close>

definition clean_whitespace :: "jsstring \<Rightarrow> jsstring" where
  "clean_whitespace markdown = trim_end (trim_start (collapse_newlines markdown))"

subsection \<open>The collaborators of the handler\<close>

text \<open>
  A thrown value: an instance of \<open>Error\<close> with its \<open>message\<close>, or any other value with
  the text \<open>String\<close> gives for it.
\<close>

datatype thrown = Error_instance jsstring | Other_value jsstring

text \<open>
  What the handler reads of a \<open>Response\<close>: \<open>status\<close>, \<open>statusText\<close>, the result of
  \<open>headers.get("content-type")\<close> (\<open>None\<close> is \<open>null\<close>, the header is absent) and the
  result of awaiting \<open>text()\<close>, which may reject.
\<close>

record response =
  status :: nat
  statusText :: jsstring
  content_type_header :: "jsstring option"
  text_result :: "thrown + jsstring"

text \<open>The \<open>ok\<close> attribute of a \<open>Response\<close> (Fetch standard): the status is 200 to 299.\<close>

definition ok :: "response \<Rightarrow> bool" where
  "ok r \<longleftrightarrow> 200 \<le> status r \<and> status r \<le> 299"

record request_init =
  headers :: "(jsstring \<times> jsstring) list"
  redirect :: jsstring

record preprocessing_options =
  enabled :: bool
  preset :: jsstring
  removeNavigation :: bool
  removeForms :: bool

record convert_options =
  preprocessing :: preprocessing_options
  headingStyle :: jsstring
  codeBlockStyle :: jsstring
  stripTags :: "jsstring list"

text \<open>
  The outside world of one invocation: \<open>ready\<close> is \<open>None\<close> when the readiness promise
  is fulfilled and \<open>Some e\<close> when it is rejected with \<open>e\<close>; \<open>fetch\<close> and \<open>convert\<close>
  return \<open>Inl e\<close> when they throw \<open>e\<close>.
\<close>

record env =
  ready :: "thrown option"
  fetch :: "jsstring \<Rightarrow> request_init \<Rightarrow> thrown + response"
  convert :: "jsstring \<Rightarrow> convert_options \<Rightarrow> thrown + jsstring"

text \<open>The arguments after validation; \<open>includeLinks\<close> has its default filled in.\<close>

record args =
  url :: jsstring
  includeLinks :: bool
  maxLength :: "jsnum option"

record content_item =
  item_type :: jsstring
  item_text :: jsstring

text \<open>\<open>isError\<close> is \<open>None\<close> where the returned object has no such key.\<close>

record tool_result =
  content :: "content_item list"
  isError :: "bool option"

text \<open>The calls made on the collaborators, in their order.\<close>

datatype event = Fetch_call jsstring | Text_call | Convert_call jsstring

text \<open>An invocation returns a result or its promise is rejected.\<close>

datatype outcome = Returned tool_result | Rejected thrown

subsection \<open>The handler\<close>

definition fetch_init :: request_init where
  "fetch_init =
     \<lparr>headers =
        [(lit ''User-Agent'',
          lit ''Mozilla/5.0 (Macintosh; Intel Mac OS X 10_15_7) AppleWebKit/537.36 (KHTML, like Gecko) Chrome/120.0.0.0 Safari/537.36''),
         (lit ''Accept'',
          lit ''text/html,application/xhtml+xml,application/xml;q=0.9,image/webp,*/*;q=0.8''),
         (lit ''Accept-Language'', lit ''en-US,en;q=0.5''),
         (lit ''Cache-Control'', lit ''no-cache'')],
      redirect = lit ''follow''\<rparr>"

definition conversion_options :: convert_options where
  "conversion_options =
     \<lparr>preprocessing =
        \<lparr>enabled = True, preset = lit ''aggressive'', removeNavigation = True,
         removeForms = True\<rparr>,
      headingStyle = lit ''atx'',
      codeBlockStyle = lit ''backticks'',
      stripTags =
        [lit ''script'', lit ''style'', lit ''noscript'', lit ''iframe'', lit ''svg'', lit ''img'',
         lit ''picture'', lit ''figure'']\<rparr>"

definition text_item :: "jsstring \<Rightarrow> content_item" where
  "text_item t = \<lparr>item_type = lit ''text'', item_text = t\<rparr>"

definition truncation_suffix :: jsstring where
  "truncation_suffix = [NL, NL] @ lit ''[Content truncated...]''"

text \<open>
  The body of the \<open>try\<close> block, lines 42 to 133. \<open>Inl e\<close> is control passing to the
  \<open>catch\<close> clause with \<open>e\<close>. A guard \<open>maxLength && ...\<close> is false when \<open>maxLength\<close> is
  \<open>undefined\<close> or a falsy number.
\<close>

definition try_block :: "env \<Rightarrow> args \<Rightarrow> (thrown + tool_result) \<times> event list" where
  "try_block e a =
     (case fetch e (url a) fetch_init of
        Inl error \<Rightarrow> (Inl error, [Fetch_call (url a)])
      | Inr response \<Rightarrow>
          if \<not> ok response then
            (Inr \<lparr>content =
                    [text_item (lit ''Error fetching URL: '' @ number_to_string (status response)
                                @ lit '' '' @ statusText response)],
                  isError = Some True\<rparr>,
             [Fetch_call (url a)])
          else
            let contentType =
                  (case content_type_header response of
                     None \<Rightarrow> []
                   | Some v \<Rightarrow> if v = [] then [] else v)
            in
              if \<not> includes_str contentType (lit ''text/html'') \<and>
                 \<not> includes_str contentType (lit ''application/xhtml'')
              then
                (case text_result response of
                   Inl error \<Rightarrow> (Inl error, [Fetch_call (url a), Text_call])
                 | Inr txt \<Rightarrow>
                     let result = txt;
                         result =
                           (case maxLength a of
                              None \<Rightarrow> result
                            | Some m \<Rightarrow>
                                if truthy m \<and> length_gt (length result) m
                                then substring0 result m @ truncation_suffix
                                else result)
                     in (Inr \<lparr>content = [text_item result], isError = None\<rparr>,
                         [Fetch_call (url a), Text_call]))
              else
                (case text_result response of
                   Inl error \<Rightarrow> (Inl error, [Fetch_call (url a), Text_call])
                 | Inr html \<Rightarrow>
                     (case convert e html conversion_options of
                        Inl error \<Rightarrow>
                          (Inl error, [Fetch_call (url a), Text_call, Convert_call html])
                      | Inr converted \<Rightarrow>
                          let markdown = converted;
                              markdown =
                                (if \<not> includeLinks a then strip_links markdown else markdown);
                              markdown = clean_whitespace markdown;
                              markdown =
                                (case maxLength a of
                                   None \<Rightarrow> markdown
                                 | Some m \<Rightarrow>
                                     if truthy m \<and> length_gt (length markdown) m
                                     then substring0 markdown m @ truncation_suffix
                                     else markdown)
                          in (Inr \<lparr>content = [text_item markdown], isError = None\<rparr>,
                              [Fetch_call (url a), Text_call, Convert_call html]))))"

text \<open>
  The \<open>catch\<close> clause, lines 134 to 146:
  \<open>error instanceof Error ? error.message : String(error)\<close>.
\<close>

fun errorMessage :: "thrown \<Rightarrow> jsstring" where
  "errorMessage (Error_instance message) = message"
| "errorMessage (Other_value str) = str"

definition catch_block :: "thrown \<Rightarrow> tool_result" where
  "catch_block error =
     \<lparr>content = [text_item (lit ''Error fetching URL: '' @ errorMessage error)],
      isError = Some True\<rparr>"

text \<open>
  The handler, lines 37 to 147: \<open>await ready\<close> stands before the \<open>try\<close> statement, so a
  rejected readiness promise rejects the invocation.
\<close>

definition handler :: "env \<Rightarrow> args \<Rightarrow> outcome \<times> event list" where
  "handler e a =
     (case ready e of
        Some error \<Rightarrow> (Rejected error, [])
      | None \<Rightarrow>
          (case try_block e a of
             (Inl error, calls) \<Rightarrow> (Returned (catch_block error), calls)
           | (Inr r, calls) \<Rightarrow> (Returned r, calls)))"

subsection \<open>Example invocations\<close>

definition ex_args :: args where
  "ex_args = \<lparr>url = lit ''https://example.com/'', includeLinks = False, maxLength = None\<rparr>"

definition ex_response :: "nat \<Rightarrow> string \<Rightarrow> string option \<Rightarrow> string \<Rightarrow> response" where
  "ex_response st stxt ct body =
     \<lparr>status = st, statusText = lit stxt, content_type_header = map_option lit ct,
      text_result = Inr (lit body)\<rparr>"

definition ex_env :: "response \<Rightarrow> string \<Rightarrow> env" where
  "ex_env r md =
     \<lparr>ready = None, fetch = (\<lambda>u i. Inr r), convert = (\<lambda>h c. Inr (lit md))\<rparr>"

definition ex_env_not_ready :: env where
  "ex_env_not_ready =
     \<lparr>ready = Some (Error_instance (lit ''WebAssembly.instantiate(): out of memory'')),
      fetch = (\<lambda>u i. Inr (ex_response 200 ''OK'' (Some ''text/html'') ''<p>Hi</p>'')),
      convert = (\<lambda>h c. Inr (lit ''Hi''))\<rparr>"

definition ex_env_failing :: "(thrown + response) \<Rightarrow> (thrown + jsstring) \<Rightarrow> env" where
  "ex_env_failing f c = \<lparr>ready = None, fetch = (\<lambda>u i. f), convert = (\<lambda>h opts. c)\<rparr>"

section \<open>Auxiliary lemmas\<close>

subsection \<open>The handler on each path\<close>

lemma handler_not_ok:
  assumes "ready e = None" and "fetch e (url a) fetch_init = Inr r" and "\<not> ok r"
  shows "handler e a =
    (Returned \<lparr>content =
                 [text_item (lit ''Error fetching URL: '' @ number_to_string (status r)
                             @ lit '' '' @ statusText r)],
               isError = Some True\<rparr>,
     [Fetch_call (url a)])"
  using assms by (simp add: handler_def try_block_def)

lemma handler_passthrough:
  assumes "ready e = None" and "fetch e (url a) fetch_init = Inr r" and "ok r"
    and "\<forall>v. content_type_header r = Some v \<longrightarrow>
           \<not> includes_str v (lit ''text/html'') \<and> \<not> includes_str v (lit ''application/xhtml'')"
    and "text_result r = Inr body"
  shows "handler e a =
    (Returned \<lparr>content =
                 [text_item
                    (case maxLength a of
                       None \<Rightarrow> body
                     | Some m \<Rightarrow>
                         if truthy m \<and> length_gt (length body) m
                         then substring0 body m @ truncation_suffix
                         else body)],
               isError = None\<rparr>,
     [Fetch_call (url a), Text_call])"
proof -
  have nil: "\<not> includes_str [] (lit ''text/html'') \<and> \<not> includes_str [] (lit ''application/xhtml'')"
    by (simp add: lit_def)
  show ?thesis
    using assms nil
    by (cases "content_type_header r")
       (simp_all add: handler_def try_block_def Let_def split: option.splits)
qed

lemma handler_html:
  assumes "ready e = None" and "fetch e (url a) fetch_init = Inr r" and "ok r"
    and "content_type_header r = Some v"
    and "includes_str v (lit ''text/html'') \<or> includes_str v (lit ''application/xhtml'')"
    and "text_result r = Inr html"
    and "convert e html conversion_options = Inr md"
  shows "handler e a =
    (Returned \<lparr>content =
                 [text_item
                    (case maxLength a of
                       None \<Rightarrow> clean_whitespace (if includeLinks a then md else strip_links md)
                     | Some m \<Rightarrow>
                         if truthy m \<and>
                            length_gt
                              (length (clean_whitespace
                                         (if includeLinks a then md else strip_links md))) m
                         then substring0
                                (clean_whitespace (if includeLinks a then md else strip_links md)) m
                              @ truncation_suffix
                         else clean_whitespace (if includeLinks a then md else strip_links md))],
               isError = None\<rparr>,
     [Fetch_call (url a), Text_call, Convert_call html])"
proof -
  have "v \<noteq> []"
    using assms(5) by (auto simp: lit_def)
  then show ?thesis
    using assms
    by (simp add: handler_def try_block_def Let_def split: option.splits)
qed

lemma is_prefix_iff: "is_prefix p s \<longleftrightarrow> prefix p s"
  by (induction p s rule: is_prefix.induct) simp_all

lemma includes_str_iff: "includes_str s sub \<longleftrightarrow> sublist sub s"
  by (induction s) (simp_all add: is_prefix_iff sublist_Cons_right)

lemma positive_integer_limit:
  assumes "0 < N"
  shows "truthy (Num (of_nat N))"
    and "length_gt n (Num (of_nat N)) \<longleftrightarrow> N < n"
    and "substring0 s (Num (of_nat N)) = take N s"
  using assms by simp_all

subsection \<open>Runs of line feeds and the ends of the cleaned text\<close>

lemma run_prefix:
  "n \<le> length (takeWhile (\<lambda>x. x = c) s) \<longleftrightarrow> prefix (replicate n c) s"
proof (induction n arbitrary: s)
  case 0
  show ?case by simp
next
  case (Suc n)
  show ?case
  proof (cases s)
    case Nil
    then show ?thesis by simp
  next
    case (Cons x xs)
    then show ?thesis using Suc.IH [of xs] by auto
  qed
qed

lemma four_newlines: "[NL, NL, NL, NL] = replicate 4 NL"
  by (simp add: numeral_eq_Suc)

lemma run_collapse_le:
  "length (takeWhile (\<lambda>x. x = NL) (collapse_newlines s)) \<le> length (takeWhile (\<lambda>x. x = NL) s)"
proof (induction s rule: collapse_newlines.induct)
  case 1
  show ?case by simp
next
  case (2 c t)
  show ?case
  proof (cases "4 \<le> length (takeWhile (\<lambda>x. x = NL) (c # t))")
    case True
    let ?d = "dropWhile (\<lambda>x. x = NL) (c # t)"
    have "takeWhile (\<lambda>x. x = NL) ?d = []"
      by (metis (mono_tags, lifting) dropWhile_eq_Nil_conv hd_dropWhile takeWhile.simps(1)
          takeWhile_eq_Nil_iff)
    with "2.IH"(1) [OF True] have "takeWhile (\<lambda>x. x = NL) (collapse_newlines ?d) = []"
      by simp
    with True show ?thesis by simp
  next
    case False
    with "2.IH"(2) [OF False] show ?thesis by simp
  qed
qed

lemma collapse_newlines_no_run: "\<not> sublist [NL, NL, NL, NL] (collapse_newlines s)"
proof (induction s rule: collapse_newlines.induct)
  case 1
  show ?case by simp
next
  case (2 c t)
  show ?case
  proof (cases "4 \<le> length (takeWhile (\<lambda>x. x = NL) (c # t))")
    case True
    let ?d = "dropWhile (\<lambda>x. x = NL) (c # t)"
    let ?x = "collapse_newlines ?d"
    have "takeWhile (\<lambda>x. x = NL) ?d = []"
      by (metis (mono_tags, lifting) dropWhile_eq_Nil_conv hd_dropWhile takeWhile.simps(1)
          takeWhile_eq_Nil_iff)
    with run_collapse_le [of ?d] have run0: "takeWhile (\<lambda>x. x = NL) ?x = []" by simp
    have "\<not> prefix (replicate 4 NL) (NL # NL # NL # ?x)"
      using run0 by (simp add: run_prefix [symmetric])
    moreover have "\<not> prefix (replicate 4 NL) (NL # NL # ?x)"
      using run0 by (simp add: run_prefix [symmetric])
    moreover have "\<not> prefix (replicate 4 NL) (NL # ?x)"
      using run0 by (simp add: run_prefix [symmetric])
    moreover have "\<not> sublist (replicate 4 NL) ?x"
      using "2.IH"(1) [OF True] by (simp add: four_newlines)
    ultimately have "\<not> sublist (replicate 4 NL) (NL # NL # NL # ?x)"
      by (simp add: sublist_Cons_right)
    with True show ?thesis by (simp add: four_newlines)
  next
    case False
    have "length (takeWhile (\<lambda>x. x = NL) (c # collapse_newlines t)) \<le>
          length (takeWhile (\<lambda>x. x = NL) (c # t))"
      using run_collapse_le [of t] by simp
    with False have "\<not> prefix (replicate 4 NL) (c # collapse_newlines t)"
      by (simp only: run_prefix [symmetric])
    moreover have "\<not> sublist (replicate 4 NL) (collapse_newlines t)"
      using "2.IH"(2) [OF False] by (simp add: four_newlines)
    ultimately have "\<not> sublist (replicate 4 NL) (c # collapse_newlines t)"
      by (simp add: sublist_Cons_right)
    with False show ?thesis by (simp add: four_newlines)
  qed
qed

lemma collapse_newlines_id:
  "\<not> sublist [NL, NL, NL, NL] s \<Longrightarrow> collapse_newlines s = s"
proof (induction s)
  case Nil
  show ?case by simp
next
  case (Cons c t)
  from Cons.prems have np: "\<not> prefix (replicate 4 NL) (c # t)"
    and ns: "\<not> sublist [NL, NL, NL, NL] t"
    by (simp_all add: sublist_Cons_right four_newlines)
  from np have "\<not> 4 \<le> length (takeWhile (\<lambda>x. x = NL) (c # t))"
    by (simp only: run_prefix) simp
  with Cons.IH [OF ns] show ?case by simp
qed

lemma trim_start_sublist: "sublist (trim_start s) s"
  by (simp add: trim_start_def)

lemma trim_end_sublist: "sublist (trim_end s) s"
  by (simp add: trim_end_def sublist_rev_left)

lemma trim_start_head: "trim_start s \<noteq> [] \<Longrightarrow> \<not> is_space (hd (trim_start s))"
  unfolding trim_start_def by (rule hd_dropWhile)

lemma trim_end_last: "trim_end s \<noteq> [] \<Longrightarrow> \<not> is_space (last (trim_end s))"
  unfolding trim_end_def using hd_dropWhile [of is_space "rev s"] by (simp add: last_rev)

lemma trim_end_head:
  assumes "s \<noteq> []" and "\<not> is_space (hd s)"
  shows "trim_end s \<noteq> [] \<and> hd (trim_end s) = hd s"
proof -
  from assms obtain c t where s: "s = c # t" and c: "\<not> is_space c"
    by (cases s) auto
  have "dropWhile is_space (rev t @ [c]) =
        (if \<forall>x\<in>set (rev t). is_space x then [c] else dropWhile is_space (rev t) @ [c])"
    using c by (simp add: dropWhile_append)
  then show ?thesis by (simp add: trim_end_def s)
qed

lemma trim_start_id: "s = [] \<or> \<not> is_space (hd s) \<Longrightarrow> trim_start s = s"
  by (simp add: trim_start_def dropWhile_eq_self_iff)

lemma trim_end_id: "s = [] \<or> \<not> is_space (last s) \<Longrightarrow> trim_end s = s"
proof -
  assume "s = [] \<or> \<not> is_space (last s)"
  then have "rev s = [] \<or> \<not> is_space (hd (rev s))" by (auto simp: hd_rev)
  then have "dropWhile is_space (rev s) = rev s" by (simp only: dropWhile_eq_self_iff)
  then show ?thesis by (simp add: trim_end_def)
qed

lemma clean_whitespace_ends:
  "clean_whitespace s \<noteq> [] \<Longrightarrow>
     \<not> is_space (hd (clean_whitespace s)) \<and> \<not> is_space (last (clean_whitespace s))"
proof -
  let ?u = "trim_start (collapse_newlines s)"
  assume ne: "clean_whitespace s \<noteq> []"
  then have "?u \<noteq> []" by (auto simp: clean_whitespace_def trim_end_def)
  then have "\<not> is_space (hd ?u)" by (rule trim_start_head)
  with \<open>?u \<noteq> []\<close> have "hd (trim_end ?u) = hd ?u" using trim_end_head by blast
  with \<open>\<not> is_space (hd ?u)\<close> have "\<not> is_space (hd (clean_whitespace s))"
    by (simp add: clean_whitespace_def)
  moreover have "\<not> is_space (last (clean_whitespace s))"
    using ne trim_end_last [of ?u] by (simp add: clean_whitespace_def)
  ultimately show ?thesis ..
qed

lemma clean_whitespace_no_run: "\<not> sublist [NL, NL, NL, NL] (clean_whitespace s)"
proof
  assume "sublist [NL, NL, NL, NL] (clean_whitespace s)"
  then have "sublist [NL, NL, NL, NL] (trim_start (collapse_newlines s))"
    unfolding clean_whitespace_def using trim_end_sublist sublist_order.order_trans by blast
  then have "sublist [NL, NL, NL, NL] (collapse_newlines s)"
    using trim_start_sublist sublist_order.order_trans by blast
  with collapse_newlines_no_run show False by blast
qed

lemma clean_whitespace_id:
  assumes "\<not> sublist [NL, NL, NL, NL] s" and "s = [] \<or> \<not> is_space (hd s) \<and> \<not> is_space (last s)"
  shows "clean_whitespace s = s"
  using assms by (auto simp: clean_whitespace_def collapse_newlines_id trim_start_id trim_end_id)

subsection \<open>The scan for links\<close>

lemma match_link_other: "c \<noteq> jschr CHR ''['' \<Longrightarrow> match_link (c # t) = None"
  by (simp add: match_link_def)

lemma match_link_empty_label: "match_link (jschr CHR ''['' # jschr CHR '']'' # t) = None"
  by (simp add: match_link_def)

lemma match_link_link:
  assumes "lab \<noteq> []" and "jschr CHR '']'' \<notin> set lab"
    and "tgt \<noteq> []" and "jschr CHR '')'' \<notin> set tgt"
  shows "match_link (jschr CHR ''['' # lab @ jschr CHR '']'' # jschr CHR ''('' # tgt
                       @ jschr CHR '')'' # rest) = Some (lab, rest)"
proof -
  let ?t = "lab @ jschr CHR '']'' # jschr CHR ''('' # tgt @ jschr CHR '')'' # rest"
  let ?u = "tgt @ jschr CHR '')'' # rest"
  have al: "\<forall>x\<in>set lab. x \<noteq> jschr CHR '']''" using assms(2) by blast
  have at: "\<forall>x\<in>set tgt. x \<noteq> jschr CHR '')''" using assms(4) by blast
  have l1: "takeWhile (\<lambda>x. x \<noteq> jschr CHR '']'') ?t = lab"
    using al by (simp add: takeWhile_tail)
  have l2: "dropWhile (\<lambda>x. x \<noteq> jschr CHR '']'') ?t = jschr CHR '']'' # jschr CHR ''('' # ?u"
    using al by (simp add: dropWhile_append3)
  have t1: "takeWhile (\<lambda>x. x \<noteq> jschr CHR '')'') ?u = tgt"
    using at by (simp add: takeWhile_tail)
  have t2: "dropWhile (\<lambda>x. x \<noteq> jschr CHR '')'') ?u = jschr CHR '')'' # rest"
    using at by (simp add: dropWhile_append3)
  show ?thesis
    unfolding match_link_def using assms(1,3) by (simp add: l1 l2 t1 t2 del: append.simps)
qed

lemma strip_links_copy:
  "jschr CHR ''['' \<notin> set pre \<Longrightarrow> strip_links (pre @ s) = pre @ strip_links s"
proof (induction pre)
  case Nil
  show ?case by simp
next
  case (Cons c pre)
  then have "c \<noteq> jschr CHR ''[''" and "jschr CHR ''['' \<notin> set pre" by auto
  with Cons.IH show ?case by (simp add: match_link_other)
qed

lemma strip_links_plain: "jschr CHR ''['' \<notin> set s \<Longrightarrow> strip_links s = s"
  using strip_links_copy [of s "[]"] by simp

lemma no_bracket_no_link:
  assumes "jschr CHR ''['' \<notin> set s"
  shows "match_link (drop i s) = None"
proof (cases "drop i s")
  case Nil
  then show ?thesis by (simp add: match_link_def)
next
  case (Cons c t)
  then have "c \<in> set s" by (metis in_set_dropD list.set_intros(1))
  with assms have "c \<noteq> jschr CHR ''[''" by blast
  with Cons show ?thesis by (simp add: match_link_other)
qed

lemma match_link_SomeD:
  assumes "match_link s = Some (lab, rest)"
  shows "\<exists>tgt. s = jschr CHR ''['' # lab @ jschr CHR '']'' # jschr CHR ''('' # tgt
                   @ jschr CHR '')'' # rest \<and>
               lab \<noteq> [] \<and> jschr CHR '']'' \<notin> set lab \<and>
               tgt \<noteq> [] \<and> jschr CHR '')'' \<notin> set tgt"
proof -
  from assms obtain c t where s: "s = c # t"
    by (cases s) (auto simp: match_link_def)
  let ?a = "dropWhile (\<lambda>x. x \<noteq> jschr CHR '']'') t"
  from assms s have c: "c = jschr CHR ''[''"
    by (auto simp: match_link_def split: if_splits)
  from assms s c have lab: "lab = takeWhile (\<lambda>x. x \<noteq> jschr CHR '']'') t" and ne: "lab \<noteq> []"
    by (auto simp: match_link_def Let_def split: if_splits list.splits)
  from assms s obtain rb lp u where a: "?a = rb # lp # u"
    by (auto simp: match_link_def Let_def split: if_splits list.splits)
  have rb: "rb = jschr CHR '']''"
    using hd_dropWhile [of "\<lambda>x. x \<noteq> jschr CHR '']''" t] a by simp
  let ?b = "dropWhile (\<lambda>x. x \<noteq> jschr CHR '')'') u"
  from assms s c a have lp: "lp = jschr CHR ''(''"
    and tne: "takeWhile (\<lambda>x. x \<noteq> jschr CHR '')'') u \<noteq> []"
    by (auto simp: match_link_def Let_def split: if_splits list.splits)
  from assms s a obtain rp where b: "?b = rp # rest"
    by (auto simp: match_link_def Let_def split: if_splits list.splits)
  have rp: "rp = jschr CHR '')''"
    using hd_dropWhile [of "\<lambda>x. x \<noteq> jschr CHR '')''" u] b by simp
  have t: "t = lab @ rb # lp # u"
    using takeWhile_dropWhile_id [of "\<lambda>x. x \<noteq> jschr CHR '']''" t] a lab by simp
  have u: "u = takeWhile (\<lambda>x. x \<noteq> jschr CHR '')'') u @ rp # rest"
    using takeWhile_dropWhile_id [of "\<lambda>x. x \<noteq> jschr CHR '')''" u] b by simp
  have "jschr CHR '']'' \<notin> set lab"
    unfolding lab by (auto dest: set_takeWhileD)
  moreover have "jschr CHR '')'' \<notin> set (takeWhile (\<lambda>x. x \<noteq> jschr CHR '')'') u)"
    by (auto dest: set_takeWhileD)
  ultimately show ?thesis
    using s c t u rb lp rp ne tne by (intro exI [of _ "takeWhile (\<lambda>x. x \<noteq> jschr CHR '')'') u"]) auto
qed

lemma match_link_extend:
  assumes "match_link s = Some (lab, rest)"
  shows "match_link (s @ x) = Some (lab, rest @ x)"
proof -
  from match_link_SomeD [OF assms] obtain tgt where
    s: "s = jschr CHR ''['' # lab @ jschr CHR '']'' # jschr CHR ''('' # tgt @ jschr CHR '')'' # rest"
    and c: "lab \<noteq> []" "jschr CHR '']'' \<notin> set lab" "tgt \<noteq> []" "jschr CHR '')'' \<notin> set tgt"
    by blast
  from match_link_link [OF c, of "rest @ x"] show ?thesis by (simp add: s)
qed

lemma strip_links_skip:
  "\<forall>i<length pre. match_link (drop i (pre @ s)) = None \<Longrightarrow>
     strip_links (pre @ s) = pre @ strip_links s"
proof (induction pre)
  case Nil
  show ?case by simp
next
  case (Cons c pre)
  from Cons.prems have "match_link (drop 0 ((c # pre) @ s)) = None" by blast
  then have head: "match_link (c # pre @ s) = None" by simp
  have "\<forall>i<length pre. match_link (drop i (pre @ s)) = None"
  proof (intro allI impI)
    fix i assume "i < length pre"
    then have "Suc i < length (c # pre)" by simp
    with Cons.prems have "match_link (drop (Suc i) ((c # pre) @ s)) = None" by blast
    then show "match_link (drop i (pre @ s)) = None" by simp
  qed
  from Cons.IH [OF this] head show ?case by simp
qed

lemma strip_links_unmatched:
  assumes "\<forall>i. match_link (drop i s) = None"
  shows "strip_links s = s"
  using strip_links_skip [of s "[]"] assms by simp

lemma strip_links_found:
  assumes "\<forall>i<length pre. match_link (drop i (pre @ lit ''['' @ lab @ lit '']('' @ tgt
                                                 @ lit '')'' @ rest)) = None"
    and "lab \<noteq> []" and "jschr CHR '']'' \<notin> set lab"
    and "tgt \<noteq> []" and "jschr CHR '')'' \<notin> set tgt"
  shows "strip_links (pre @ lit ''['' @ lab @ lit '']('' @ tgt @ lit '')'' @ rest) =
         pre @ lab @ strip_links rest"
proof -
  have "strip_links (jschr CHR ''['' # lab @ jschr CHR '']'' # jschr CHR ''('' # tgt
                       @ jschr CHR '')'' # rest) = lab @ strip_links rest"
    using match_link_link [OF assms(2-5), of rest] by simp
  then have "strip_links (lit ''['' @ lab @ lit '']('' @ tgt @ lit '')'' @ rest) =
             lab @ strip_links rest"
    by (simp add: lit_def)
  with strip_links_skip [OF assms(1)] show ?thesis by simp
qed

lemma strip_links_segments:
  assumes "\<forall>ps pre lab tgt ss. segs = ps @ (pre, lab, tgt) # ss \<longrightarrow>
             lab \<noteq> [] \<and> jschr CHR '']'' \<notin> set lab \<and> tgt \<noteq> [] \<and> jschr CHR '')'' \<notin> set tgt \<and>
             (\<forall>i<length pre.
                match_link
                  (drop i (concat (map (\<lambda>(pre, lab, tgt).
                                          pre @ lit ''['' @ lab @ lit '']('' @ tgt @ lit '')'')
                                     ((pre, lab, tgt) # ss)) @ end_text)) = None)"
    and "\<forall>i. match_link (drop i end_text) = None"
  shows "strip_links
           (concat (map (\<lambda>(pre, lab, tgt). pre @ lit ''['' @ lab @ lit '']('' @ tgt @ lit '')'') segs)
            @ end_text) =
         concat (map (\<lambda>(pre, lab, tgt). pre @ lab) segs) @ end_text"
  using assms(1)
proof (induction segs)
  case Nil
  show ?case using assms(2) by (simp add: strip_links_unmatched)
next
  case (Cons seg segs)
  obtain pre lab tgt where seg: "seg = (pre, lab, tgt)" by (cases seg)
  let ?render = "\<lambda>(pre, lab, tgt). pre @ lit ''['' @ lab @ lit '']('' @ tgt @ lit '')''"
  let ?rest = "concat (map ?render segs) @ end_text"
  from Cons.prems [rule_format, of "[]" pre lab tgt segs] seg
  have l: "lab \<noteq> []" "jschr CHR '']'' \<notin> set lab"
    and t: "tgt \<noteq> []" "jschr CHR '')'' \<notin> set tgt"
    and p: "\<forall>i<length pre. match_link (drop i (concat (map ?render ((pre, lab, tgt) # segs))
                                              @ end_text)) = None"
    by simp_all
  from p have p': "\<forall>i<length pre. match_link (drop i (pre @ lit ''['' @ lab @ lit '']('' @ tgt
                                                 @ lit '')'' @ ?rest)) = None"
    by simp
  have tail: "\<forall>ps pre lab tgt ss. segs = ps @ (pre, lab, tgt) # ss \<longrightarrow>
             lab \<noteq> [] \<and> jschr CHR '']'' \<notin> set lab \<and> tgt \<noteq> [] \<and> jschr CHR '')'' \<notin> set tgt \<and>
             (\<forall>i<length pre.
                match_link
                  (drop i (concat (map ?render ((pre, lab, tgt) # ss)) @ end_text)) = None)"
  proof (intro allI impI)
    fix ps pre' lab' tgt' ss
    assume "segs = ps @ (pre', lab', tgt') # ss"
    then have "seg # segs = (seg # ps) @ (pre', lab', tgt') # ss" by simp
    from Cons.prems [rule_format, OF this]
    show "lab' \<noteq> [] \<and> jschr CHR '']'' \<notin> set lab' \<and> tgt' \<noteq> [] \<and> jschr CHR '')'' \<notin> set tgt' \<and>
             (\<forall>i<length pre'.
                match_link
                  (drop i (concat (map ?render ((pre', lab', tgt') # ss)) @ end_text)) = None)" .
  qed
  from Cons.IH [OF tail] strip_links_found [OF p' l t]
  show ?case by (simp add: seg)
qed

lemma delimiters_differ:
  "jschr CHR ''['' \<noteq> jschr CHR '']''" "jschr CHR ''['' \<noteq> jschr CHR '')''"
  "jschr CHR ''['' \<noteq> NL" "jschr CHR '']'' \<noteq> NL" "jschr CHR ''('' \<noteq> NL" "jschr CHR '')'' \<noteq> NL"
  "jschr CHR '']'' \<noteq> jschr CHR '')''" "jschr CHR ''('' \<noteq> jschr CHR '')''"
  by (simp_all add: jschr_def NL_def)

lemma match_link_Nil: "match_link [] = None"
  by (simp add: match_link_def)

lemma match_link_after_label:
  assumes "jschr CHR '']'' \<notin> set lab"
  shows "match_link (jschr CHR ''['' # lab @ jschr CHR '']'' # x) =
     (if lab = [] then None
      else case x of
             [] \<Rightarrow> None
           | lp # u \<Rightarrow>
               if lp \<noteq> jschr CHR ''('' then None
               else if takeWhile (\<lambda>x. x \<noteq> jschr CHR '')'') u = [] then None
               else (case dropWhile (\<lambda>x. x \<noteq> jschr CHR '')'') u of
                       [] \<Rightarrow> None
                     | rp # rest \<Rightarrow> Some (lab, rest)))"
proof -
  have al: "\<forall>x\<in>set lab. x \<noteq> jschr CHR '']''" using assms by blast
  have l1: "takeWhile (\<lambda>x. x \<noteq> jschr CHR '']'') (lab @ jschr CHR '']'' # y) = lab" for y
    using al by (simp add: takeWhile_tail)
  have l2: "dropWhile (\<lambda>x. x \<noteq> jschr CHR '']'') (lab @ jschr CHR '']'' # y) = jschr CHR '']'' # y"
    for y
    using al by (simp add: dropWhile_append3)
  show ?thesis
  proof (cases x)
    case Nil
    then show ?thesis by (simp add: match_link_def l1 l2 Let_def del: append.simps)
  next
    case (Cons lp u)
    then show ?thesis
      by (cases "dropWhile (\<lambda>x. x \<noteq> jschr CHR '')'') u")
         (simp_all add: match_link_def l1 l2 Let_def del: append.simps dropWhile_eq_Nil_conv)
  qed
qed

lemma unmatched_Cons:
  "(\<forall>i. match_link (drop i (c # t)) = None) \<longleftrightarrow>
     match_link (c # t) = None \<and> (\<forall>i. match_link (drop i t) = None)"
proof
  assume a: "\<forall>i. match_link (drop i (c # t)) = None"
  from a [rule_format, of 0] have "match_link (c # t) = None" by simp
  moreover have "\<forall>i. match_link (drop i t) = None"
  proof
    fix i from a [rule_format, of "Suc i"] show "match_link (drop i t) = None" by simp
  qed
  ultimately show "match_link (c # t) = None \<and> (\<forall>i. match_link (drop i t) = None)" ..
next
  assume a: "match_link (c # t) = None \<and> (\<forall>i. match_link (drop i t) = None)"
  show "\<forall>i. match_link (drop i (c # t)) = None"
  proof
    fix i show "match_link (drop i (c # t)) = None" using a by (cases i) simp_all
  qed
qed

lemma unmatched_append:
  assumes "\<forall>i<length a. match_link (drop i a @ b) = None"
    and "\<forall>i. match_link (drop i b) = None"
  shows "\<forall>i. match_link (drop i (a @ b)) = None"
proof
  fix i
  show "match_link (drop i (a @ b)) = None"
  proof (cases "i < length a")
    case True
    with assms(1) show ?thesis by simp
  next
    case False
    with assms(2) show ?thesis by simp
  qed
qed

lemma unmatched_append_plain:
  assumes "jschr CHR ''['' \<notin> set a" and "\<forall>i. match_link (drop i b) = None"
  shows "\<forall>i. match_link (drop i (a @ b)) = None"
proof (rule unmatched_append [OF _ assms(2)], intro allI impI)
  fix i assume "i < length a"
  then obtain c t where d: "drop i a = c # t" by (cases "drop i a") auto
  then have "c \<in> set a" by (metis in_set_dropD list.set_intros(1))
  with assms(1) have "c \<noteq> jschr CHR ''[''" by blast
  then show "match_link (drop i a @ b) = None" by (simp add: d match_link_other)
qed

lemma unmatched_drop:
  "\<forall>i. match_link (drop i s) = None \<Longrightarrow> \<forall>i. match_link (drop i (drop n s)) = None"
  by simp

lemma unmatched_prefix:
  assumes "\<forall>i. match_link (drop i (y @ w)) = None"
  shows "\<forall>i. match_link (drop i y) = None"
proof
  fix i
  show "match_link (drop i y) = None"
  proof (cases "match_link (drop i y)")
    case None
    then show ?thesis .
  next
    case (Some lr)
    then obtain l r where lr: "match_link (drop i y) = Some (l, r)" by (cases lr) simp
    then have "i < length y" by (cases "i < length y") (simp_all add: match_link_Nil)
    with match_link_extend [OF lr, of w] assms [rule_format, of i] show ?thesis by simp
  qed
qed

text \<open>A label that loses its brackets in front of copied text.\<close>

lemma label_in_place:
  assumes "p \<noteq> []"
    and "lab \<noteq> []" and "jschr CHR '']'' \<notin> set lab" and "jschr CHR ''('' \<notin> set lab"
    and "tgt \<noteq> []" and "jschr CHR '')'' \<notin> set tgt"
    and none: "match_link (p @ jschr CHR ''['' # lab @ jschr CHR '']'' # jschr CHR ''('' # tgt
                             @ jschr CHR '')'' # d) = None"
  shows "match_link (p @ lab @ out) = None"
proof -
  let ?link = "jschr CHR ''['' # lab @ jschr CHR '']'' # jschr CHR ''('' # tgt @ jschr CHR '')'' # d"
  from assms(1) obtain c q where p: "p = c # q" by (cases p) auto
  show ?thesis
  proof (cases "c = jschr CHR ''[''")
    case False
    then show ?thesis by (simp add: p match_link_other)
  next
    case c: True
    show ?thesis
    proof (cases "jschr CHR '']'' \<in> set q")
      case False
      then have "jschr CHR '']'' \<notin> set (q @ jschr CHR ''['' # lab)"
        using assms(3) delimiters_differ by auto
      from match_link_link [OF _ this assms(5,6), of d] none
      show ?thesis by (simp add: p c)
    next
      case True
      then obtain l q2 where q: "q = l @ jschr CHR '']'' # q2" and l: "jschr CHR '']'' \<notin> set l"
        by (auto dest: split_list_first)
      have doc: "match_link (jschr CHR ''['' # l @ jschr CHR '']'' # (q2 @ ?link)) = None"
        using none by (simp add: p c q)
      have goal: "match_link (p @ lab @ out) =
                  match_link (jschr CHR ''['' # l @ jschr CHR '']'' # (q2 @ lab @ out))"
        by (simp add: p c q)
      show ?thesis
      proof (cases "l = []")
        case True
        then show ?thesis unfolding goal by (simp add: match_link_empty_label)
      next
        case lne: False
        show ?thesis
        proof (cases q2)
          case Nil
          from assms(2,4) obtain x xs where "lab = x # xs" and "x \<noteq> jschr CHR ''(''"
            by (cases lab) auto
          then show ?thesis
            unfolding goal by (simp add: Nil match_link_after_label [OF l] lne)
        next
          case (Cons lp q3)
          show ?thesis
          proof (cases "lp = jschr CHR ''(''")
            case False
            then show ?thesis
              unfolding goal by (simp add: Cons match_link_after_label [OF l] lne)
          next
            case lp: True
            show ?thesis
            proof (cases "jschr CHR '')'' \<in> set q3")
              case True
              then obtain t q4 where q3: "q3 = t @ jschr CHR '')'' # q4"
                and t: "jschr CHR '')'' \<notin> set t"
                by (auto dest: split_list_first)
              show ?thesis
              proof (cases "t = []")
                case True
                then show ?thesis
                  unfolding goal by (simp add: Cons lp q3 match_link_after_label [OF l] lne)
              next
                case False
                from match_link_link [OF lne l False t, of "q4 @ ?link"] doc
                show ?thesis by (simp add: Cons lp q3)
              qed
            next
              case False
              let ?w = "q3 @ ?link"
              have "jschr CHR '')'' \<in> set ?w" by simp
              from split_list_first [OF this]
              obtain t r where w: "?w = t @ jschr CHR '')'' # r"
                and t: "jschr CHR '')'' \<notin> set t"
                by blast
              have "t \<noteq> []"
              proof
                assume "t = []"
                with w have "hd ?w = jschr CHR '')''" by simp
                moreover have "hd ?w \<noteq> jschr CHR '')''"
                  using False delimiters_differ by (cases q3) auto
                ultimately show False by blast
              qed
              from match_link_link [OF lne l this t, of r]
              have "match_link (jschr CHR ''['' # l @ jschr CHR '']'' # jschr CHR ''('' # ?w) =
                    Some (l, r)"
                by (simp only: w)
              with doc show ?thesis by (simp add: Cons lp)
            qed
          qed
        qed
      qed
    qed
  qed
qed

lemma stripped_segments_unmatched:
  assumes "\<forall>ps pre lab tgt ss. segs = ps @ (pre, lab, tgt) # ss \<longrightarrow>
             lab \<noteq> [] \<and> jschr CHR '']'' \<notin> set lab \<and> tgt \<noteq> [] \<and> jschr CHR '')'' \<notin> set tgt \<and>
             (\<forall>i<length pre.
                match_link
                  (drop i (concat (map (\<lambda>(pre, lab, tgt).
                                          pre @ lit ''['' @ lab @ lit '']('' @ tgt @ lit '')'')
                                     ((pre, lab, tgt) # ss)) @ end_text)) = None)"
    and "\<forall>i. match_link (drop i end_text) = None"
    and "\<forall>(pre, lab, tgt) \<in> set segs. jschr CHR ''['' \<notin> set lab \<and> jschr CHR ''('' \<notin> set lab"
  shows "\<forall>i. match_link (drop i (concat (map (\<lambda>(pre, lab, tgt). pre @ lab) segs) @ end_text)) = None"
  using assms(1,3)
proof (induction segs)
  case Nil
  show ?case using assms(2) by simp
next
  case (Cons seg segs)
  obtain pre lab tgt where seg: "seg = (pre, lab, tgt)" by (cases seg)
  let ?render = "\<lambda>(pre, lab, tgt). pre @ lit ''['' @ lab @ lit '']('' @ tgt @ lit '')''"
  let ?doc = "concat (map ?render segs) @ end_text"
  let ?out = "concat (map (\<lambda>(pre, lab, tgt). pre @ lab) segs) @ end_text"
  from Cons.prems(1) [rule_format, of "[]" pre lab tgt segs] seg
  have l: "lab \<noteq> []" "jschr CHR '']'' \<notin> set lab"
    and t: "tgt \<noteq> []" "jschr CHR '')'' \<notin> set tgt"
    and p: "\<forall>i<length pre. match_link (drop i (concat (map ?render ((pre, lab, tgt) # segs))
                                              @ end_text)) = None"
    by simp_all
  from Cons.prems(2) seg have lb: "jschr CHR ''['' \<notin> set lab" and lp: "jschr CHR ''('' \<notin> set lab"
    by simp_all
  have tail: "\<forall>ps pre lab tgt ss. segs = ps @ (pre, lab, tgt) # ss \<longrightarrow>
             lab \<noteq> [] \<and> jschr CHR '']'' \<notin> set lab \<and> tgt \<noteq> [] \<and> jschr CHR '')'' \<notin> set tgt \<and>
             (\<forall>i<length pre.
                match_link
                  (drop i (concat (map ?render ((pre, lab, tgt) # ss)) @ end_text)) = None)"
  proof (intro allI impI)
    fix ps pre' lab' tgt' ss
    assume "segs = ps @ (pre', lab', tgt') # ss"
    then have "seg # segs = (seg # ps) @ (pre', lab', tgt') # ss" by simp
    from Cons.prems(1) [rule_format, OF this]
    show "lab' \<noteq> [] \<and> jschr CHR '']'' \<notin> set lab' \<and> tgt' \<noteq> [] \<and> jschr CHR '')'' \<notin> set tgt' \<and>
             (\<forall>i<length pre'.
                match_link
                  (drop i (concat (map ?render ((pre', lab', tgt') # ss)) @ end_text)) = None)" .
  qed
  from Cons.prems(2) have "\<forall>(pre, lab, tgt) \<in> set segs.
      jschr CHR ''['' \<notin> set lab \<and> jschr CHR ''('' \<notin> set lab"
    by simp
  from Cons.IH [OF tail this] have out: "\<forall>i. match_link (drop i ?out) = None" .
  have after: "\<forall>i. match_link (drop i (lab @ ?out)) = None"
    using lb out by (rule unmatched_append_plain)
  have before: "\<forall>i<length pre. match_link (drop i pre @ lab @ ?out) = None"
  proof (intro allI impI)
    fix i assume i: "i < length pre"
    then have ne: "drop i pre \<noteq> []" by simp
    from p i have "match_link (drop i (pre @ lit ''['' @ lab @ lit '']('' @ tgt @ lit '')'' @ ?doc))
                   = None"
      by simp
    with i have "match_link (drop i pre @ jschr CHR ''['' # lab @ jschr CHR '']'' # jschr CHR ''(''
                               # tgt @ jschr CHR '')'' # ?doc) = None"
      by (simp add: lit_def)
    from label_in_place [OF ne l lp t this]
    show "match_link (drop i pre @ lab @ ?out) = None" .
  qed
  from unmatched_append [OF before after] show ?case by (simp add: seg)
qed

lemma bounded_all_upt: "(\<forall>i<n. P i) \<longleftrightarrow> (\<forall>i\<in>set [0..<n]. P i)"
  by auto


subsection \<open>Links and the clean-up\<close>

lemma run_stop:
  "c \<noteq> NL \<Longrightarrow> takeWhile (\<lambda>x. x = NL) (u @ c # b) = takeWhile (\<lambda>x. x = NL) u"
  by (induction u) simp_all

lemma rest_stop:
  "c \<noteq> NL \<Longrightarrow> dropWhile (\<lambda>x. x = NL) (u @ c # b) = dropWhile (\<lambda>x. x = NL) u @ c # b"
  by (induction u) simp_all

declare collapse_newlines.simps(2) [simp del]

lemma collapse_newlines_long:
  "4 \<le> length (takeWhile (\<lambda>x. x = NL) (c # t)) \<Longrightarrow>
     collapse_newlines (c # t) =
       NL # NL # NL # collapse_newlines (dropWhile (\<lambda>x. x = NL) (c # t))"
  by (subst collapse_newlines.simps) (simp del: dropWhile.simps)

lemma collapse_newlines_short:
  "\<not> 4 \<le> length (takeWhile (\<lambda>x. x = NL) (c # t)) \<Longrightarrow>
     collapse_newlines (c # t) = c # collapse_newlines t"
  by (subst collapse_newlines.simps) simp

lemma collapse_newlines_split:
  "c \<noteq> NL \<Longrightarrow>
     collapse_newlines (a @ c # b) = collapse_newlines a @ c # collapse_newlines b"
proof (induction a rule: collapse_newlines.induct)
  case 1
  then have "\<not> 4 \<le> length (takeWhile (\<lambda>x. x = NL) (c # b))" by simp
  from collapse_newlines_short [OF this] show ?case
    by (simp)
next
  case (2 x t)
  have run: "takeWhile (\<lambda>x. x = NL) (x # (t @ c # b)) = takeWhile (\<lambda>x. x = NL) (x # t)"
    using run_stop [OF "2.prems", of "x # t" b] by simp
  have rest: "dropWhile (\<lambda>x. x = NL) (x # (t @ c # b)) = dropWhile (\<lambda>x. x = NL) (x # t) @ c # b"
    using rest_stop [OF "2.prems", of "x # t" b] by simp
  show ?case
  proof (cases "4 \<le> length (takeWhile (\<lambda>x. x = NL) (x # t))")
    case True
    then have long: "4 \<le> length (takeWhile (\<lambda>x. x = NL) (x # (t @ c # b)))"
      using run by (simp del: takeWhile.simps)
    have "collapse_newlines ((x # t) @ c # b) = collapse_newlines (x # (t @ c # b))"
      by (simp only: append_Cons)
    also have "\<dots> = NL # NL # NL # collapse_newlines (dropWhile (\<lambda>x. x = NL) (x # t) @ c # b)"
      using collapse_newlines_long [OF long] by (simp only: rest)
    also have "\<dots> = NL # NL # NL # (collapse_newlines (dropWhile (\<lambda>x. x = NL) (x # t))
                                     @ c # collapse_newlines b)"
      using "2.IH"(1) [OF True "2.prems"] by (simp only:)
    also have "\<dots> = collapse_newlines (x # t) @ c # collapse_newlines b"
      using collapse_newlines_long [OF True] by (simp only: append_Cons)
    finally show ?thesis .
  next
    case False
    then have short: "\<not> 4 \<le> length (takeWhile (\<lambda>x. x = NL) (x # (t @ c # b)))"
      using run by (simp del: takeWhile.simps)
    have "collapse_newlines ((x # t) @ c # b) = collapse_newlines (x # (t @ c # b))"
      by (simp only: append_Cons)
    also have "\<dots> = x # collapse_newlines (t @ c # b)"
      using collapse_newlines_short [OF short] .
    also have "\<dots> = x # (collapse_newlines t @ c # collapse_newlines b)"
      using "2.IH"(2) [OF False "2.prems"] by (simp only:)
    also have "\<dots> = collapse_newlines (x # t) @ c # collapse_newlines b"
      using collapse_newlines_short [OF False] by (simp only: append_Cons)
    finally show ?thesis .
  qed
qed

lemma collapse_newlines_Nil: "collapse_newlines s = [] \<longleftrightarrow> s = []"
proof (cases s)
  case Nil
  then show ?thesis by simp
next
  case (Cons c t)
  show ?thesis
  proof (cases "4 \<le> length (takeWhile (\<lambda>x. x = NL) (c # t))")
    case True
    from collapse_newlines_long [OF True] Cons show ?thesis by (simp only:) simp
  next
    case False
    from collapse_newlines_short [OF False] Cons show ?thesis by (simp only:) simp
  qed
qed

lemma set_all_same: "r \<noteq> [] \<Longrightarrow> \<forall>y\<in>set r. y = c \<Longrightarrow> set r = {c}"
  by (cases r) auto

lemma set_collapse_newlines: "set (collapse_newlines s) = set s"
proof (induction s rule: collapse_newlines.induct)
  case 1
  show ?case by simp
next
  case (2 c t)
  show ?case
  proof (cases "4 \<le> length (takeWhile (\<lambda>x. x = NL) (c # t))")
    case True
    let ?run = "takeWhile (\<lambda>x. x = NL) (c # t)"
    let ?d = "dropWhile (\<lambda>x. x = NL) (c # t)"
    from True have "?run \<noteq> []" by (metis list.size(3) not_numeral_le_zero)
    moreover have "\<forall>y\<in>set ?run. y = NL" by (metis (mono_tags, lifting) set_takeWhileD)
    ultimately have run: "set ?run = {NL}"
      by (rule set_all_same)
    have "set (c # t) = set ?run \<union> set ?d"
      by (metis set_append takeWhile_dropWhile_id)
    with run have "set (c # t) = insert NL (set ?d)" by (simp only:) simp
    moreover have "set (collapse_newlines (c # t)) = insert NL (set (collapse_newlines ?d))"
      using collapse_newlines_long [OF True] by (simp only:) simp
    ultimately show ?thesis using "2.IH"(1) [OF True] by (simp only:)
  next
    case False
    have "set (collapse_newlines (c # t)) = insert c (set (collapse_newlines t))"
      using collapse_newlines_short [OF False] by (simp only:) simp
    with "2.IH"(2) [OF False] show ?thesis by (simp only:) simp
  qed
qed

lemma collapse_newlines_unsplit:
  "c \<noteq> NL \<Longrightarrow> collapse_newlines t = a' @ c # b' \<Longrightarrow>
     \<exists>a b. t = a @ c # b \<and> collapse_newlines a = a' \<and> collapse_newlines b = b'"
proof (induction t arbitrary: a' rule: collapse_newlines.induct)
  case 1
  then show ?case by simp
next
  case (2 x t)
  show ?case
  proof (cases "4 \<le> length (takeWhile (\<lambda>x. x = NL) (x # t))")
    case True
    let ?run = "takeWhile (\<lambda>x. x = NL) (x # t)"
    let ?d = "dropWhile (\<lambda>x. x = NL) (x # t)"
    from collapse_newlines_long [OF True] "2.prems"(2)
    have eq: "a' @ c # b' = NL # NL # NL # collapse_newlines ?d"
      by (simp only:)
    have "\<exists>a''. a' = NL # NL # NL # a'' \<and> collapse_newlines ?d = a'' @ c # b'"
    proof (cases a')
      case Nil
      with eq "2.prems"(1) show ?thesis by (simp del: dropWhile.simps)
    next
      case a1: (Cons y1 r1)
      show ?thesis
      proof (cases r1)
        case Nil
        with a1 eq "2.prems"(1) show ?thesis
          by (simp del: dropWhile.simps)
      next
        case a2: (Cons y2 r2)
        show ?thesis
        proof (cases r2)
          case Nil
          with a1 a2 eq "2.prems"(1) show ?thesis
            by (simp del: dropWhile.simps)
        next
          case a3: (Cons y3 r3)
          with a1 a2 eq show ?thesis
            by (simp del: dropWhile.simps)
        qed
      qed
    qed
    then obtain a'' where a': "a' = NL # NL # NL # a''"
      and d: "collapse_newlines ?d = a'' @ c # b'"
      by blast
    from "2.IH"(1) [OF True "2.prems"(1) d] obtain a b where
      dd: "?d = a @ c # b" and ca: "collapse_newlines a = a''" and cb: "collapse_newlines b = b'"
      by blast
    have xt: "x # t = (?run @ a) @ c # b"
      using takeWhile_dropWhile_id [of "\<lambda>x. x = NL" "x # t"] dd by (simp only: append_assoc)
    have allnl: "\<forall>y\<in>set ?run. y = NL" by (metis (mono_tags, lifting) set_takeWhileD)
    have anl: "a = [] \<or> hd a \<noteq> NL"
    proof (cases a)
      case Nil
      then show ?thesis by simp
    next
      case (Cons y ys)
      with dd have "hd ?d = y" by (simp only: append_Cons list.sel)
      moreover have "?d \<noteq> []" using dd by (simp only:) simp
      ultimately have "y \<noteq> NL" using hd_dropWhile [of "\<lambda>x. x = NL" "x # t"] by blast
      with Cons show ?thesis by simp
    qed
    then have idem: "dropWhile (\<lambda>x. x = NL) a = a" and tn: "takeWhile (\<lambda>x. x = NL) a = []"
      by (cases a; simp)+
    have r1: "takeWhile (\<lambda>x. x = NL) (?run @ a) = ?run"
      using allnl tn by (simp only: takeWhile_append2 append_Nil2)
    have r2: "dropWhile (\<lambda>x. x = NL) (?run @ a) = a"
      using allnl idem by (simp only: dropWhile_append2)
    from True have "?run \<noteq> []" by (metis list.size(3) not_numeral_le_zero)
    then obtain y ys where run: "?run = y # ys"
      by (cases ?run) blast+
    have long: "4 \<le> length (takeWhile (\<lambda>x. x = NL) (y # (ys @ a)))"
      using True r1 run by (simp only: append_Cons)
    have "collapse_newlines (y # (ys @ a)) =
          NL # NL # NL # collapse_newlines (dropWhile (\<lambda>x. x = NL) (y # (ys @ a)))"
      using long by (rule collapse_newlines_long)
    moreover have "y # (ys @ a) = ?run @ a" using run by (simp only: append_Cons)
    ultimately have "collapse_newlines (?run @ a) = NL # NL # NL # collapse_newlines a"
      using r2 by (simp only:)
    with ca a' have "collapse_newlines (?run @ a) = a'" by (simp only:)
    with xt cb show ?thesis by blast
  next
    case False
    from collapse_newlines_short [OF False] "2.prems"(2)
    have eq: "a' @ c # b' = x # collapse_newlines t"
      by (simp only:)
    show ?thesis
    proof (cases a')
      case Nil
      with eq have "x = c" and "collapse_newlines t = b'" by simp_all
      then have "x # t = [] @ c # t \<and> collapse_newlines [] = a' \<and> collapse_newlines t = b'"
        using Nil by simp
      then show ?thesis by blast
    next
      case (Cons y a'')
      with eq have y: "y = x" and t: "collapse_newlines t = a'' @ c # b'" by simp_all
      from "2.IH"(2) [OF False "2.prems"(1) t] obtain a b where
        tt: "t = a @ c # b" and ca: "collapse_newlines a = a''" and cb: "collapse_newlines b = b'"
        by blast
      have "takeWhile (\<lambda>x. x = NL) ((x # a) @ c # b) = takeWhile (\<lambda>x. x = NL) (x # a)"
        using "2.prems"(1) by (rule run_stop)
      with False tt have "\<not> 4 \<le> length (takeWhile (\<lambda>x. x = NL) (x # a))"
        by (simp del: takeWhile.simps)
      then have "collapse_newlines (x # a) = x # collapse_newlines a"
        by (rule collapse_newlines_short)
      with ca Cons y have "collapse_newlines (x # a) = a'" by (simp only:)
      moreover have "x # t = (x # a) @ c # b" using tt by (simp only: append_Cons)
      ultimately show ?thesis using cb by blast
    qed
  qed
qed

lemma match_link_collapse:
  assumes "match_link (collapse_newlines s) = Some (lab', rest')"
  shows "\<exists>lab rest. match_link s = Some (lab, rest)"
proof -
  from match_link_SomeD [OF assms] obtain tgt' where
    cs: "collapse_newlines s = [] @ jschr CHR ''['' # lab' @ jschr CHR '']'' # jschr CHR ''('' # tgt'
           @ jschr CHR '')'' # rest'"
    and c: "lab' \<noteq> []" "jschr CHR '']'' \<notin> set lab'" "tgt' \<noteq> []" "jschr CHR '')'' \<notin> set tgt'"
    by auto
  from collapse_newlines_unsplit [OF delimiters_differ(3) cs] obtain a0 t where
    s: "s = a0 @ jschr CHR ''['' # t" and a0: "collapse_newlines a0 = []"
    and t: "collapse_newlines t = lab' @ jschr CHR '']'' # jschr CHR ''('' # tgt' @ jschr CHR '')'' # rest'"
    by blast
  from collapse_newlines_unsplit [OF delimiters_differ(4) t] obtain a b where
    tt: "t = a @ jschr CHR '']'' # b" and a: "collapse_newlines a = lab'"
    and b: "collapse_newlines b = [] @ jschr CHR ''('' # tgt' @ jschr CHR '')'' # rest'"
    by auto
  from collapse_newlines_unsplit [OF delimiters_differ(5) b] obtain a2 b2 where
    bb: "b = a2 @ jschr CHR ''('' # b2" and a2: "collapse_newlines a2 = []"
    and b2: "collapse_newlines b2 = tgt' @ jschr CHR '')'' # rest'"
    by blast
  from collapse_newlines_unsplit [OF delimiters_differ(6) b2] obtain a3 b3 where
    b2b: "b2 = a3 @ jschr CHR '')'' # b3" and a3: "collapse_newlines a3 = tgt'"
    by blast
  have "a \<noteq> []" using a c(1) by auto
  moreover have "jschr CHR '']'' \<notin> set a" using a c(2) set_collapse_newlines [of a] by simp
  moreover have "a3 \<noteq> []" using a3 c(3) by auto
  moreover have "jschr CHR '')'' \<notin> set a3" using a3 c(4) set_collapse_newlines [of a3] by simp
  ultimately have "match_link (jschr CHR ''['' # a @ jschr CHR '']'' # jschr CHR ''('' # a3
                                @ jschr CHR '')'' # b3) = Some (a, b3)"
    by (rule match_link_link)
  moreover have "s = jschr CHR ''['' # a @ jschr CHR '']'' # jschr CHR ''('' # a3 @ jschr CHR '')'' # b3"
    using s a0 tt bb a2 b2b by (simp add: collapse_newlines_Nil)
  ultimately show ?thesis by simp
qed

lemma unmatched_collapse_newlines:
  assumes "\<forall>i. match_link (drop i s) = None"
  shows "\<forall>i. match_link (drop i (collapse_newlines s)) = None"
proof
  fix i
  show "match_link (drop i (collapse_newlines s)) = None"
  proof (cases "match_link (drop i (collapse_newlines s))")
    case None
    then show ?thesis .
  next
    case (Some lr)
    then obtain l r where lr: "match_link (drop i (collapse_newlines s)) = Some (l, r)"
      by (cases lr) simp
    from match_link_SomeD [OF lr] obtain x where
      d: "drop i (collapse_newlines s) = jschr CHR ''['' # x"
      by auto
    have "collapse_newlines s = take i (collapse_newlines s) @ jschr CHR ''['' # x"
      using append_take_drop_id [of i "collapse_newlines s"] d by simp
    from collapse_newlines_unsplit [OF delimiters_differ(3) this] obtain a b where
      s: "s = a @ jschr CHR ''['' # b" and b: "collapse_newlines b = x"
      by blast
    have "collapse_newlines (jschr CHR ''['' # b) = jschr CHR ''['' # x"
      using collapse_newlines_split [OF delimiters_differ(3), of "[]" b] b by simp
    with lr d have "match_link (collapse_newlines (jschr CHR ''['' # b)) = Some (l, r)" by simp
    from match_link_collapse [OF this] obtain l' r' where
      "match_link (jschr CHR ''['' # b) = Some (l', r')"
      by blast
    moreover have "drop (length a) s = jschr CHR ''['' # b" using s by simp
    ultimately show ?thesis using assms [rule_format, of "length a"] by simp
  qed
qed

lemma trim_end_prefix: "\<exists>w. s = trim_end s @ w"
proof -
  have "rev (takeWhile is_space (rev s) @ dropWhile is_space (rev s)) = rev (rev s)"
    by (simp only: takeWhile_dropWhile_id)
  then have "s = trim_end s @ rev (takeWhile is_space (rev s))"
    by (simp only: rev_append rev_rev_ident trim_end_def)
  then show ?thesis ..
qed

lemma unmatched_clean_whitespace:
  assumes "\<forall>i. match_link (drop i s) = None"
  shows "\<forall>i. match_link (drop i (clean_whitespace s)) = None"
proof -
  let ?u = "trim_start (collapse_newlines s)"
  have "\<forall>i. match_link (drop i (collapse_newlines s)) = None"
    using assms by (rule unmatched_collapse_newlines)
  then have u: "\<forall>i. match_link (drop i ?u) = None"
    by (simp add: trim_start_def dropWhile_eq_drop)
  from trim_end_prefix [of ?u] obtain w where "?u = trim_end ?u @ w" ..
  with u have "\<forall>i. match_link (drop i (trim_end ?u @ w)) = None" by simp
  then have "\<forall>i. match_link (drop i (trim_end ?u)) = None" by (rule unmatched_prefix)
  then show ?thesis by (simp add: clean_whitespace_def)
qed

lemma match_link_before:
  assumes "match_link (y @ x) = Some (lab, rest)" and "jschr CHR '')'' \<notin> set x"
  shows "\<exists>rest'. match_link y = Some (lab, rest')"
proof -
  from match_link_SomeD [OF assms(1)] obtain tgt where
    yx: "y @ x = (jschr CHR ''['' # lab @ jschr CHR '']'' # jschr CHR ''('' # tgt @ [jschr CHR '')''])
                 @ rest"
    and c: "lab \<noteq> []" "jschr CHR '']'' \<notin> set lab" "tgt \<noteq> []" "jschr CHR '')'' \<notin> set tgt"
    by auto
  let ?m = "jschr CHR ''['' # lab @ jschr CHR '']'' # jschr CHR ''('' # tgt @ [jschr CHR '')'']"
  from yx obtain us where "y = ?m @ us \<and> us @ x = rest \<or> y @ us = ?m \<and> x = us @ rest"
    unfolding append_eq_append_conv2 by blast
  then have "\<exists>r. y = ?m @ r"
  proof
    assume "y = ?m @ us \<and> us @ x = rest"
    then show ?thesis by blast
  next
    assume h: "y @ us = ?m \<and> x = us @ rest"
    show ?thesis
    proof (cases "us = []")
      case True
      with h show ?thesis by simp
    next
      case False
      from h have "last (y @ us) = jschr CHR '')''" by simp
      with False have "last us = jschr CHR '')''" by simp
      with False have "jschr CHR '')'' \<in> set us" using last_in_set by metis
      with h assms(2) show ?thesis by simp
    qed
  qed
  then obtain r where "y = jschr CHR ''['' # lab @ jschr CHR '']'' # jschr CHR ''('' # tgt
                            @ jschr CHR '')'' # r"
    by auto
  with match_link_link [OF c, of r] show ?thesis by simp
qed

lemma substring0_take: "\<exists>k. substring0 s m = take k s"
proof (cases m)
  case (Num r)
  then show ?thesis by auto
next
  case NaN
  then have "substring0 s m = take 0 s" by simp
  then show ?thesis ..
next
  case PosInf
  then have "substring0 s m = take (length s) s" by simp
  then show ?thesis ..
next
  case NegInf
  then have "substring0 s m = take 0 s" by simp
  then show ?thesis ..
qed

lemma unmatched_truncated:
  assumes "\<forall>i. match_link (drop i s) = None"
  shows "\<forall>i. match_link (drop i (take k s @ truncation_suffix)) = None"
proof
  fix i
  have np: "jschr CHR '')'' \<notin> set truncation_suffix"
    by (simp add: truncation_suffix_def lit_def jschr_def NL_def)
  show "match_link (drop i (take k s @ truncation_suffix)) = None"
  proof (cases "match_link (drop i (take k s @ truncation_suffix))")
    case None
    then show ?thesis .
  next
    case (Some lr)
    then obtain l r where
      lr: "match_link (drop i (take k s) @ drop (i - length (take k s)) truncation_suffix) =
           Some (l, r)"
      by (cases lr) simp
    have "jschr CHR '')'' \<notin> set (drop (i - length (take k s)) truncation_suffix)"
      using np by (auto dest: in_set_dropD)
    from match_link_before [OF lr this] obtain r' where
      y: "match_link (drop i (take k s)) = Some (l, r')"
      by blast
    have "drop i (take k s) \<noteq> []"
      using y by (auto simp: match_link_Nil)
    then have "i < length (take k s)" by (simp del: length_take)
    then have "drop i (take k s @ drop k s) = drop i (take k s) @ drop k s"
      by (simp del: length_take append_take_drop_id)
    then have "drop i s = drop i (take k s) @ drop k s"
      by (simp only: append_take_drop_id)
    with match_link_extend [OF y, of "drop k s"] assms [rule_format, of i]
    show ?thesis by simp
  qed
qed

text \<open>
  Every text can be read as the pass reads it: as texts in which the expression matches
  nowhere, each followed by a link, and a closing text without a match.
\<close>

lemma scan_reading:
  "\<exists>segs end_text.
     md = concat (map (\<lambda>(pre, lab, tgt). pre @ lit ''['' @ lab @ lit '']('' @ tgt @ lit '')'') segs)
          @ end_text \<and>
     (\<forall>ps pre lab tgt ss. segs = ps @ (pre, lab, tgt) # ss \<longrightarrow>
        lab \<noteq> [] \<and> jschr CHR '']'' \<notin> set lab \<and> tgt \<noteq> [] \<and> jschr CHR '')'' \<notin> set tgt \<and>
        (\<forall>i<length pre.
           match_link
             (drop i (concat (map (\<lambda>(pre, lab, tgt).
                                     pre @ lit ''['' @ lab @ lit '']('' @ tgt @ lit '')'')
                                ((pre, lab, tgt) # ss)) @ end_text)) = None)) \<and>
     (\<forall>i. match_link (drop i end_text) = None)"
  (is "\<exists>segs end_text. ?reads md segs end_text")
proof (induction md rule: strip_links.induct)
  case 1
  have "?reads [] [] []" by (simp add: match_link_Nil)
  then show ?case by blast
next
  case (2 c t)
  let ?render = "\<lambda>(pre, lab, tgt). pre @ lit ''['' @ lab @ lit '']('' @ tgt @ lit '')''"
  show ?case
  proof (cases "match_link (c # t)")
    case (Some lr)
    obtain lab rest where lr: "lr = (lab, rest)" by (cases lr)
    from match_link_SomeD [of "c # t" lab rest] Some lr obtain tgt where
      ct: "c # t = jschr CHR ''['' # lab @ jschr CHR '']'' # jschr CHR ''('' # tgt
                   @ jschr CHR '')'' # rest"
      and c: "lab \<noteq> []" "jschr CHR '']'' \<notin> set lab" "tgt \<noteq> []" "jschr CHR '')'' \<notin> set tgt"
      by auto
    from "2.IH"(2) [OF Some lr [symmetric]] obtain segs end_text where
      r: "?reads rest segs end_text"
      by blast
    have a: "c # t = concat (map ?render (([], lab, tgt) # segs)) @ end_text"
      using ct r by (simp add: lit_def)
    have b: "\<forall>ps pre lab' tgt' ss. ([], lab, tgt) # segs = ps @ (pre, lab', tgt') # ss \<longrightarrow>
            lab' \<noteq> [] \<and> jschr CHR '']'' \<notin> set lab' \<and> tgt' \<noteq> [] \<and> jschr CHR '')'' \<notin> set tgt' \<and>
            (\<forall>i<length pre.
               match_link (drop i (concat (map ?render ((pre, lab', tgt') # ss)) @ end_text)) = None)"
    proof (intro allI impI)
      fix ps pre lab' tgt' ss
      assume d: "([], lab, tgt) # segs = ps @ (pre, lab', tgt') # ss"
      show "lab' \<noteq> [] \<and> jschr CHR '']'' \<notin> set lab' \<and> tgt' \<noteq> [] \<and> jschr CHR '')'' \<notin> set tgt' \<and>
            (\<forall>i<length pre.
               match_link (drop i (concat (map ?render ((pre, lab', tgt') # ss)) @ end_text)) = None)"
      proof (cases ps)
        case Nil
        with d have "pre = []" "lab' = lab" "tgt' = tgt" by simp_all
        with c show ?thesis by simp
      next
        case (Cons p ps')
        with d have "segs = ps' @ (pre, lab', tgt') # ss" by simp
        with r show ?thesis by blast
      qed
    qed
    have e: "\<forall>i. match_link (drop i end_text) = None" using r by blast
    from a b e have "?reads (c # t) (([], lab, tgt) # segs) end_text" by (intro conjI)
    then show ?thesis by blast
  next
    case None
    from "2.IH"(1) [OF None] obtain segs end_text where r: "?reads t segs end_text"
      by blast
    show ?thesis
    proof (cases segs)
      case Nil
      with r have t: "t = end_text" by simp
      have "\<forall>i. match_link (drop i (c # end_text)) = None"
        unfolding unmatched_Cons using None t r by blast
      then have "?reads (c # t) [] (c # end_text)" using t by simp
      then show ?thesis by blast
    next
      case (Cons seg segs')
      obtain pre lab tgt where seg: "seg = (pre, lab, tgt)" by (cases seg)
      have doc: "c # t = concat (map ?render ((c # pre, lab, tgt) # segs')) @ end_text"
        using r Cons seg by simp
      have b: "\<forall>ps pre' lab' tgt' ss.
              (c # pre, lab, tgt) # segs' = ps @ (pre', lab', tgt') # ss \<longrightarrow>
              lab' \<noteq> [] \<and> jschr CHR '']'' \<notin> set lab' \<and> tgt' \<noteq> [] \<and> jschr CHR '')'' \<notin> set tgt' \<and>
              (\<forall>i<length pre'.
                 match_link (drop i (concat (map ?render ((pre', lab', tgt') # ss)) @ end_text))
                 = None)"
      proof (intro allI impI)
        fix ps pre' lab' tgt' ss
        assume d: "(c # pre, lab, tgt) # segs' = ps @ (pre', lab', tgt') # ss"
        show "lab' \<noteq> [] \<and> jschr CHR '']'' \<notin> set lab' \<and> tgt' \<noteq> [] \<and> jschr CHR '')'' \<notin> set tgt' \<and>
              (\<forall>i<length pre'.
                 match_link (drop i (concat (map ?render ((pre', lab', tgt') # ss)) @ end_text))
                 = None)"
        proof (cases ps)
          case Nil
          with d have e: "pre' = c # pre" "lab' = lab" "tgt' = tgt" "ss = segs'" by simp_all
          have "segs = [] @ (pre, lab, tgt) # segs'" using Cons seg by simp
          with r have old: "lab \<noteq> [] \<and> jschr CHR '']'' \<notin> set lab \<and> tgt \<noteq> [] \<and>
                jschr CHR '')'' \<notin> set tgt \<and>
                (\<forall>i<length pre.
                   match_link (drop i (concat (map ?render ((pre, lab, tgt) # segs')) @ end_text))
                   = None)"
            by blast
          have tdoc: "t = concat (map ?render ((pre, lab, tgt) # segs')) @ end_text"
            using r Cons seg by simp
          have "match_link (drop i (c # t)) = None" if "i < length (c # pre)" for i
          proof (cases i)
            case 0
            with None show ?thesis by simp
          next
            case (Suc j)
            with that have "j < length pre" by simp
            with old tdoc have "match_link (drop j t) = None" by (simp only:)
            with Suc show ?thesis by simp
          qed
          then have "\<forall>i<length (c # pre).
                 match_link (drop i (concat (map ?render ((c # pre, lab, tgt) # segs')) @ end_text))
                 = None"
            unfolding doc [symmetric] by blast
          with old show ?thesis unfolding e by blast
        next
          case (Cons p ps')
          with d have "segs' = ps' @ (pre', lab', tgt') # ss" by simp
          then have "segs = (seg # ps') @ (pre', lab', tgt') # ss"
            using \<open>segs = seg # segs'\<close> by simp
          with r show ?thesis by blast
        qed
      qed
      have e: "\<forall>i. match_link (drop i end_text) = None" using r by blast
      from doc b e have "?reads (c # t) ((c # pre, lab, tgt) # segs') end_text" by (intro conjI)
      then show ?thesis by blast
    qed
  qed
qed

section \<open>The claims\<close>

text \<open>
  C1. An invocation that receives a response whose status is outside 200 to 299 returns
  a result whose \<open>isError\<close> is \<open>true\<close> and whose text is \<open>Error fetching URL: \<close>, the
  status, a space and the status text. The only call made is the one to \<open>fetch\<close>: the
  body is not read and the converter is not invoked.
\<close>

theorem non_success_status_is_error:
  assumes "ready e = None"
    and "fetch e (url a) fetch_init = Inr r"
    and "\<not> (200 \<le> status r \<and> status r \<le> 299)"
  shows "handler e a =
    (Returned \<lparr>content =
                 [\<lparr>item_type = lit ''text'',
                   item_text = lit ''Error fetching URL: '' @ number_to_string (status r)
                               @ lit '' '' @ statusText r\<rparr>],
               isError = Some True\<rparr>,
     [Fetch_call (url a)]) \<and>
   (\<forall>html. Convert_call html \<notin> set (snd (handler e a)))"
  using handler_not_ok [OF assms(1,2)] assms(3) by (simp add: ok_def text_item_def)

theorem non_success_status_is_error_witness:
  "handler (ex_env (ex_response 503 ''Service Unavailable'' (Some ''text/html'') ''<p>down</p>'')
              ''down'') ex_args =
    (Returned \<lparr>content =
                 [\<lparr>item_type = lit ''text'',
                   item_text = lit ''Error fetching URL: 503 Service Unavailable''\<rparr>],
               isError = Some True\<rparr>,
     [Fetch_call (lit ''https://example.com/'')])"
proof -
  let ?r = "ex_response 503 ''Service Unavailable'' (Some ''text/html'') ''<p>down</p>''"
  let ?e = "ex_env ?r ''down''"
  have h1: "ready ?e = None" by (simp add: ex_env_def)
  have h2: "fetch ?e (url ex_args) fetch_init = Inr ?r" by (simp add: ex_env_def)
  have h3: "\<not> (200 \<le> status ?r \<and> status ?r \<le> 299)" by (simp add: ex_response_def)
  have "number_to_string (status ?r) = lit ''503''" by code_simp
  moreover have "statusText ?r = lit ''Service Unavailable''" by (simp add: ex_response_def)
  moreover have "url ex_args = lit ''https://example.com/''" by (simp add: ex_args_def)
  ultimately show ?thesis
    using non_success_status_is_error [OF h1 h2 h3] by (simp add: lit_def)
qed

text \<open>
  C2. When the content type names neither \<open>text/html\<close> nor \<open>application/xhtml\<close>, or the
  header is absent or empty, the returned text is the body as received, cut only by the
  length limit: the converter is not called (the calls are \<open>fetch\<close> and \<open>text\<close> alone),
  links and white space are left as they are, and the result has no \<open>isError\<close>.
\<close>

theorem non_html_body_passes_through:
  assumes "ready e = None"
    and "fetch e (url a) fetch_init = Inr r"
    and "200 \<le> status r \<and> status r \<le> 299"
    and "\<forall>v. content_type_header r = Some v \<longrightarrow>
           \<not> includes_str v (lit ''text/html'') \<and> \<not> includes_str v (lit ''application/xhtml'')"
    and "text_result r = Inr body"
  shows "\<exists>t. handler e a =
           (Returned \<lparr>content = [\<lparr>item_type = lit ''text'', item_text = t\<rparr>], isError = None\<rparr>,
            [Fetch_call (url a), Text_call]) \<and>
         (maxLength a = None \<longrightarrow> t = body) \<and>
         (\<forall>m. maxLength a = Some m \<longrightarrow>
            t = (if truthy m \<and> length_gt (length body) m
                 then substring0 body m @ truncation_suffix else body))"
proof -
  have "ok r" using assms(3) by (simp add: ok_def)
  from handler_passthrough [OF assms(1,2) this assms(4,5)]
  show ?thesis by (cases "maxLength a") (simp_all add: text_item_def)
qed

theorem non_html_body_passes_through_witness:
  "handler (ex_env (ex_response 200 ''OK'' (Some ''application/json'') ''{\"a\":1}'') ''converted'')
     (ex_args\<lparr>maxLength := Some (Num 3)\<rparr>) =
     (Returned \<lparr>content =
                  [\<lparr>item_type = lit ''text'',
                    item_text = lit ''{\"a'' @ [NL, NL] @ lit ''[Content truncated...]''\<rparr>],
                isError = None\<rparr>,
      [Fetch_call (lit ''https://example.com/''), Text_call]) \<and>
   handler (ex_env (ex_response 200 ''OK'' None ''  plain [a](b)  '') ''converted'') ex_args =
     (Returned \<lparr>content = [\<lparr>item_type = lit ''text'', item_text = lit ''  plain [a](b)  ''\<rparr>],
                isError = None\<rparr>,
      [Fetch_call (lit ''https://example.com/''), Text_call])"
proof -
  let ?r = "ex_response 200 ''OK'' (Some ''application/json'') ''{\"a\":1}''"
  let ?e = "ex_env ?r ''converted''"
  let ?a = "ex_args\<lparr>maxLength := Some (Num 3)\<rparr>"
  have h1: "ready ?e = None" by (simp add: ex_env_def)
  have h2: "fetch ?e (url ?a) fetch_init = Inr ?r" by (simp add: ex_env_def)
  have h3: "200 \<le> status ?r \<and> status ?r \<le> 299" by (simp add: ex_response_def)
  have h4: "\<forall>v. content_type_header ?r = Some v \<longrightarrow>
           \<not> includes_str v (lit ''text/html'') \<and> \<not> includes_str v (lit ''application/xhtml'')"
    by (simp add: ex_response_def) code_simp
  have h5: "text_result ?r = Inr (lit ''{\"a\":1}'')" by (simp add: ex_response_def)
  have t: "(if truthy (Num 3) \<and> length_gt (length (lit ''{\"a\":1}'')) (Num 3)
            then substring0 (lit ''{\"a\":1}'') (Num 3) @ truncation_suffix else lit ''{\"a\":1}'')
           = lit ''{\"a'' @ [NL, NL] @ lit ''[Content truncated...]''"
    by code_simp
  have u: "url ?a = lit ''https://example.com/''" by (simp add: ex_args_def)
  have first: "handler ?e ?a =
     (Returned \<lparr>content =
                  [\<lparr>item_type = lit ''text'',
                    item_text = lit ''{\"a'' @ [NL, NL] @ lit ''[Content truncated...]''\<rparr>],
                isError = None\<rparr>,
      [Fetch_call (lit ''https://example.com/''), Text_call])"
    using non_html_body_passes_through [OF h1 h2 h3 h4 h5] t u by (auto simp: ex_args_def)
  let ?r' = "ex_response 200 ''OK'' None ''  plain [a](b)  ''"
  let ?e' = "ex_env ?r' ''converted''"
  have k1: "ready ?e' = None" by (simp add: ex_env_def)
  have k2: "fetch ?e' (url ex_args) fetch_init = Inr ?r'" by (simp add: ex_env_def)
  have k3: "200 \<le> status ?r' \<and> status ?r' \<le> 299" by (simp add: ex_response_def)
  have k4: "\<forall>v. content_type_header ?r' = Some v \<longrightarrow>
           \<not> includes_str v (lit ''text/html'') \<and> \<not> includes_str v (lit ''application/xhtml'')"
    by (simp add: ex_response_def)
  have k5: "text_result ?r' = Inr (lit ''  plain [a](b)  '')" by (simp add: ex_response_def)
  have second: "handler ?e' ex_args =
     (Returned \<lparr>content = [\<lparr>item_type = lit ''text'', item_text = lit ''  plain [a](b)  ''\<rparr>],
                isError = None\<rparr>,
      [Fetch_call (lit ''https://example.com/''), Text_call])"
    using non_html_body_passes_through [OF k1 k2 k3 k4 k5] by (auto simp: ex_args_def)
  from first second show ?thesis by (rule conjI)
qed

text \<open>
  C3. Let \<open>maxLength\<close> be a positive integer \<open>N\<close> and \<open>final\<close> the text before truncation:
  the body on the passthrough path, the cleaned Markdown on the HTML path. If \<open>final\<close> is
  longer than \<open>N\<close>, the returned text is its first \<open>N\<close> code units followed by two line
  feeds and \<open>[Content truncated...]\<close>; otherwise it is \<open>final\<close> unchanged. In both cases
  its length is at most \<open>N\<close> plus the length of that suffix. Both paths obey the same rule.
\<close>

theorem truncation_at_positive_integer:
  assumes "0 < N"
    and "maxLength a = Some (Num (of_nat N))"
    and "ready e = None"
    and "fetch e (url a) fetch_init = Inr r"
    and "200 \<le> status r \<and> status r \<le> 299"
    and "text_result r = Inr body"
    and "((\<forall>v. content_type_header r = Some v \<longrightarrow>
             \<not> includes_str v (lit ''text/html'') \<and>
             \<not> includes_str v (lit ''application/xhtml'')) \<and>
          final = body) \<or>
         (\<exists>v md. content_type_header r = Some v \<and>
                 (includes_str v (lit ''text/html'') \<or> includes_str v (lit ''application/xhtml'')) \<and>
                 convert e body conversion_options = Inr md \<and>
                 final = clean_whitespace (if includeLinks a then md else strip_links md))"
  shows "\<exists>t. fst (handler e a) =
               Returned \<lparr>content = [\<lparr>item_type = lit ''text'', item_text = t\<rparr>],
                         isError = None\<rparr> \<and>
             (N < length final \<longrightarrow>
                t = take N final @ [NL, NL] @ lit ''[Content truncated...]'') \<and>
             (length final \<le> N \<longrightarrow> t = final) \<and>
             length t \<le> N + length ([NL, NL] @ lit ''[Content truncated...]'')"
proof -
  have okr: "ok r" using assms(5) by (simp add: ok_def)
  let ?t = "if N < length final then take N final @ truncation_suffix else final"
  have res: "fst (handler e a) =
      Returned \<lparr>content = [\<lparr>item_type = lit ''text'', item_text = ?t\<rparr>], isError = None\<rparr>"
  proof (rule disjE [OF assms(7)])
    assume "(\<forall>v. content_type_header r = Some v \<longrightarrow>
             \<not> includes_str v (lit ''text/html'') \<and>
             \<not> includes_str v (lit ''application/xhtml'')) \<and>
          final = body"
    then have p: "\<forall>v. content_type_header r = Some v \<longrightarrow>
             \<not> includes_str v (lit ''text/html'') \<and>
             \<not> includes_str v (lit ''application/xhtml'')"
      and f: "final = body"
      by simp_all
    from handler_passthrough [OF assms(3,4) okr p assms(6)]
    show ?thesis
      using positive_integer_limit [OF assms(1)] by (simp add: assms(2) f text_item_def)
  next
    assume "\<exists>v md. content_type_header r = Some v \<and>
                 (includes_str v (lit ''text/html'') \<or> includes_str v (lit ''application/xhtml'')) \<and>
                 convert e body conversion_options = Inr md \<and>
                 final = clean_whitespace (if includeLinks a then md else strip_links md)"
    then obtain v md where v: "content_type_header r = Some v"
      and inc: "includes_str v (lit ''text/html'') \<or> includes_str v (lit ''application/xhtml'')"
      and md: "convert e body conversion_options = Inr md"
      and f: "final = clean_whitespace (if includeLinks a then md else strip_links md)"
      by blast
    from handler_html [OF assms(3,4) okr v inc assms(6) md]
    show ?thesis
      using positive_integer_limit [OF assms(1)] by (simp add: assms(2) f text_item_def)
  qed
  have "length ?t \<le> N + length truncation_suffix" by simp
  with res show ?thesis by (auto simp: truncation_suffix_def)
qed

theorem truncation_at_positive_integer_witness:
  "fst (handler (ex_env (ex_response 200 ''OK'' (Some ''application/json'') ''{\"a\":1}'') ''x'')
          (ex_args\<lparr>maxLength := Some (Num 3)\<rparr>)) =
     Returned \<lparr>content =
                 [\<lparr>item_type = lit ''text'',
                   item_text = lit ''{\"a'' @ [NL, NL] @ lit ''[Content truncated...]''\<rparr>],
               isError = None\<rparr> \<and>
   fst (handler (ex_env (ex_response 200 ''OK'' (Some ''text/html'') ''<p>Hello</p>'')
                   ''Hello [link](x)'')
          (ex_args\<lparr>maxLength := Some (Num 10)\<rparr>)) =
     Returned \<lparr>content = [\<lparr>item_type = lit ''text'', item_text = lit ''Hello link''\<rparr>],
               isError = None\<rparr>"
proof -
  let ?a = "ex_args\<lparr>maxLength := Some (Num 3)\<rparr>"
  let ?r = "ex_response 200 ''OK'' (Some ''application/json'') ''{\"a\":1}''"
  let ?e = "ex_env ?r ''x''"
  let ?body = "lit ''{\"a\":1}''"
  have h1: "0 < (3::nat)" by simp
  have h2: "maxLength ?a = Some (Num (of_nat 3))" by simp
  have h3: "ready ?e = None" by (simp add: ex_env_def)
  have h4: "fetch ?e (url ?a) fetch_init = Inr ?r" by (simp add: ex_env_def)
  have h5: "200 \<le> status ?r \<and> status ?r \<le> 299" by (simp add: ex_response_def)
  have h6: "text_result ?r = Inr ?body" by (simp add: ex_response_def)
  have "\<forall>v. content_type_header ?r = Some v \<longrightarrow>
             \<not> includes_str v (lit ''text/html'') \<and>
             \<not> includes_str v (lit ''application/xhtml'')"
    by (simp add: ex_response_def) code_simp
  then have h7: "((\<forall>v. content_type_header ?r = Some v \<longrightarrow>
             \<not> includes_str v (lit ''text/html'') \<and>
             \<not> includes_str v (lit ''application/xhtml'')) \<and>
          ?body = ?body) \<or>
         (\<exists>v md. content_type_header ?r = Some v \<and>
                 (includes_str v (lit ''text/html'') \<or> includes_str v (lit ''application/xhtml'')) \<and>
                 convert ?e ?body conversion_options = Inr md \<and>
                 ?body = clean_whitespace (if includeLinks ?a then md else strip_links md))"
    by simp
  have long: "3 < length ?body" by (simp add: lit_def)
  have cut: "take 3 ?body = lit ''{\"a''" by (simp add: lit_def)
  have first: "fst (handler ?e ?a) =
     Returned \<lparr>content =
                 [\<lparr>item_type = lit ''text'',
                   item_text = lit ''{\"a'' @ [NL, NL] @ lit ''[Content truncated...]''\<rparr>],
               isError = None\<rparr>"
    using truncation_at_positive_integer [OF h1 h2 h3 h4 h5 h6 h7] long cut by auto
  let ?a' = "ex_args\<lparr>maxLength := Some (Num 10)\<rparr>"
  let ?r' = "ex_response 200 ''OK'' (Some ''text/html'') ''<p>Hello</p>''"
  let ?e' = "ex_env ?r' ''Hello [link](x)''"
  let ?html = "lit ''<p>Hello</p>''"
  let ?final = "lit ''Hello link''"
  have k1: "0 < (10::nat)" by simp
  have k2: "maxLength ?a' = Some (Num (of_nat 10))" by simp
  have k3: "ready ?e' = None" by (simp add: ex_env_def)
  have k4: "fetch ?e' (url ?a') fetch_init = Inr ?r'" by (simp add: ex_env_def)
  have k5: "200 \<le> status ?r' \<and> status ?r' \<le> 299" by (simp add: ex_response_def)
  have k6: "text_result ?r' = Inr ?html" by (simp add: ex_response_def)
  have c1: "content_type_header ?r' = Some (lit ''text/html'')" by (simp add: ex_response_def)
  have c2: "includes_str (lit ''text/html'') (lit ''text/html'')" by code_simp
  have c3: "convert ?e' ?html conversion_options = Inr (lit ''Hello [link](x)'')"
    by (simp add: ex_env_def)
  have c4: "?final =
      clean_whitespace
        (if includeLinks ?a' then lit ''Hello [link](x)'' else strip_links (lit ''Hello [link](x)''))"
    by code_simp
  have k7: "((\<forall>v. content_type_header ?r' = Some v \<longrightarrow>
             \<not> includes_str v (lit ''text/html'') \<and>
             \<not> includes_str v (lit ''application/xhtml'')) \<and>
          ?final = ?html) \<or>
         (\<exists>v md. content_type_header ?r' = Some v \<and>
                 (includes_str v (lit ''text/html'') \<or> includes_str v (lit ''application/xhtml'')) \<and>
                 convert ?e' ?html conversion_options = Inr md \<and>
                 ?final = clean_whitespace (if includeLinks ?a' then md else strip_links md))"
    using c1 c2 c3 c4 by blast
  have short: "length ?final \<le> 10" by (simp add: lit_def)
  have second: "fst (handler ?e' ?a') =
     Returned \<lparr>content = [\<lparr>item_type = lit ''text'', item_text = lit ''Hello link''\<rparr>],
               isError = None\<rparr>"
    using truncation_at_positive_integer [OF k1 k2 k3 k4 k5 k6 k7] short by auto
  from first second show ?thesis by (rule conjI)
qed

text \<open>
  C4. The claim that no failure leaves the invocation as an exception does not hold:
  \<open>await ready\<close> stands outside the \<open>try\<close> statement, so when the readiness promise is
  rejected the invocation is rejected with the same value and no result is returned.
\<close>

theorem unready_engine_rejects_counterexample:
  "handler ex_env_not_ready ex_args =
     (Rejected (Error_instance (lit ''WebAssembly.instantiate(): out of memory'')), [])"
  by (simp add: handler_def ex_env_not_ready_def)

text \<open>
  C4, as the code has it. Once the readiness promise is fulfilled the invocation always
  returns a result, and every failure thrown inside the \<open>try\<close> block (by \<open>fetch\<close>, by
  reading the body or by the conversion engine) gives \<open>isError\<close> true with the text
  \<open>Error fetching URL: \<close> followed by the message of an \<open>Error\<close> instance, or by the
  string form of any other thrown value.
\<close>

theorem failures_in_try_block_are_caught:
  assumes "ready e = None"
  shows "(\<exists>res. fst (handler e a) = Returned res) \<and>
    (\<forall>err. fetch e (url a) fetch_init = Inl err \<longrightarrow>
       fst (handler e a) =
         Returned \<lparr>content =
                     [\<lparr>item_type = lit ''text'',
                       item_text = lit ''Error fetching URL: '' @ errorMessage err\<rparr>],
                   isError = Some True\<rparr>) \<and>
    (\<forall>r err. fetch e (url a) fetch_init = Inr r \<and> 200 \<le> status r \<and> status r \<le> 299 \<and>
         text_result r = Inl err \<longrightarrow>
       fst (handler e a) =
         Returned \<lparr>content =
                     [\<lparr>item_type = lit ''text'',
                       item_text = lit ''Error fetching URL: '' @ errorMessage err\<rparr>],
                   isError = Some True\<rparr>) \<and>
    (\<forall>r v html err. fetch e (url a) fetch_init = Inr r \<and> 200 \<le> status r \<and> status r \<le> 299 \<and>
         content_type_header r = Some v \<and>
         (includes_str v (lit ''text/html'') \<or> includes_str v (lit ''application/xhtml'')) \<and>
         text_result r = Inr html \<and> convert e html conversion_options = Inl err \<longrightarrow>
       fst (handler e a) =
         Returned \<lparr>content =
                     [\<lparr>item_type = lit ''text'',
                       item_text = lit ''Error fetching URL: '' @ errorMessage err\<rparr>],
                   isError = Some True\<rparr>)"
proof (intro conjI allI impI)
  show "\<exists>res. fst (handler e a) = Returned res"
    using assms by (cases "try_block e a"; cases "fst (try_block e a)") (auto simp: handler_def)
next
  fix err
  assume "fetch e (url a) fetch_init = Inl err"
  then show "fst (handler e a) =
         Returned \<lparr>content =
                     [\<lparr>item_type = lit ''text'',
                       item_text = lit ''Error fetching URL: '' @ errorMessage err\<rparr>],
                   isError = Some True\<rparr>"
    using assms by (simp add: handler_def try_block_def catch_block_def text_item_def)
next
  fix r err
  assume "fetch e (url a) fetch_init = Inr r \<and> 200 \<le> status r \<and> status r \<le> 299 \<and>
         text_result r = Inl err"
  then show "fst (handler e a) =
         Returned \<lparr>content =
                     [\<lparr>item_type = lit ''text'',
                       item_text = lit ''Error fetching URL: '' @ errorMessage err\<rparr>],
                   isError = Some True\<rparr>"
    using assms
    by (simp add: handler_def try_block_def catch_block_def text_item_def ok_def Let_def)
next
  fix r v html err
  assume h: "fetch e (url a) fetch_init = Inr r \<and> 200 \<le> status r \<and> status r \<le> 299 \<and>
         content_type_header r = Some v \<and>
         (includes_str v (lit ''text/html'') \<or> includes_str v (lit ''application/xhtml'')) \<and>
         text_result r = Inr html \<and> convert e html conversion_options = Inl err"
  then have "v \<noteq> []" by (auto simp: lit_def)
  with h show "fst (handler e a) =
         Returned \<lparr>content =
                     [\<lparr>item_type = lit ''text'',
                       item_text = lit ''Error fetching URL: '' @ errorMessage err\<rparr>],
                   isError = Some True\<rparr>"
    using assms
    by (simp add: handler_def try_block_def catch_block_def text_item_def ok_def Let_def)
qed

theorem failures_in_try_block_are_caught_witness:
  "fst (handler (ex_env_failing (Inl (Error_instance (lit ''getaddrinfo ENOTFOUND'')))
                   (Inr (lit ''x''))) ex_args) =
     Returned \<lparr>content =
                 [\<lparr>item_type = lit ''text'',
                   item_text = lit ''Error fetching URL: getaddrinfo ENOTFOUND''\<rparr>],
               isError = Some True\<rparr> \<and>
   fst (handler (ex_env_failing
                   (Inr (ex_response 200 ''OK'' (Some ''text/html'') ''<p>Hi</p>''))
                   (Inl (Other_value (lit ''unreachable'')))) ex_args) =
     Returned \<lparr>content =
                 [\<lparr>item_type = lit ''text'',
                   item_text = lit ''Error fetching URL: unreachable''\<rparr>],
               isError = Some True\<rparr>"
proof -
  let ?e = "ex_env_failing (Inl (Error_instance (lit ''getaddrinfo ENOTFOUND''))) (Inr (lit ''x''))"
  have h: "ready ?e = None" by (simp add: ex_env_failing_def)
  have f: "fetch ?e (url ex_args) fetch_init = Inl (Error_instance (lit ''getaddrinfo ENOTFOUND''))"
    by (simp add: ex_env_failing_def)
  have first: "fst (handler ?e ex_args) =
     Returned \<lparr>content =
                 [\<lparr>item_type = lit ''text'',
                   item_text = lit ''Error fetching URL: getaddrinfo ENOTFOUND''\<rparr>],
               isError = Some True\<rparr>"
    using failures_in_try_block_are_caught [OF h, of ex_args] f by (simp add: lit_def)
  let ?r = "ex_response 200 ''OK'' (Some ''text/html'') ''<p>Hi</p>''"
  let ?e' = "ex_env_failing (Inr ?r) (Inl (Other_value (lit ''unreachable'')))"
  have h': "ready ?e' = None" by (simp add: ex_env_failing_def)
  have g: "fetch ?e' (url ex_args) fetch_init = Inr ?r \<and> 200 \<le> status ?r \<and> status ?r \<le> 299 \<and>
         content_type_header ?r = Some (lit ''text/html'') \<and>
         (includes_str (lit ''text/html'') (lit ''text/html'') \<or>
          includes_str (lit ''text/html'') (lit ''application/xhtml'')) \<and>
         text_result ?r = Inr (lit ''<p>Hi</p>'') \<and>
         convert ?e' (lit ''<p>Hi</p>'') conversion_options = Inl (Other_value (lit ''unreachable''))"
    by (simp add: ex_env_failing_def ex_response_def) code_simp
  have "fst (handler ?e' ex_args) =
         Returned \<lparr>content =
                     [\<lparr>item_type = lit ''text'',
                       item_text = lit ''Error fetching URL: '' @
                                   errorMessage (Other_value (lit ''unreachable''))\<rparr>],
                   isError = Some True\<rparr>"
    using failures_in_try_block_are_caught [OF h', of ex_args] g by blast
  then have second: "fst (handler ?e' ex_args) =
     Returned \<lparr>content =
                 [\<lparr>item_type = lit ''text'',
                   item_text = lit ''Error fetching URL: unreachable''\<rparr>],
               isError = Some True\<rparr>"
    by (simp add: lit_def)
  from first second show ?thesis by (rule conjI)
qed

text \<open>
  C5. The claim that the match ignores letter case does not hold: \<open>includes\<close> compares
  code units, and nothing lowers the case of the header. A response declared as
  \<open>TEXT/HTML\<close> is passed through with its markup and the converter is not called.
\<close>

theorem upper_case_html_is_passed_through_counterexample:
  "handler (ex_env (ex_response 200 ''OK'' (Some ''TEXT/HTML'') ''<p>Hi</p>'') ''Hi'') ex_args =
     (Returned \<lparr>content = [\<lparr>item_type = lit ''text'', item_text = lit ''<p>Hi</p>''\<rparr>],
                isError = None\<rparr>,
      [Fetch_call (lit ''https://example.com/''), Text_call])"
  by code_simp

text \<open>
  C5, as the code has it. The match is case-sensitive: a response with a content type is
  routed to conversion (the converter is called on its body) exactly when the header
  contains \<open>text/html\<close> or \<open>application/xhtml\<close> written in these very letters; any other
  header is passed through.
\<close>

theorem classification_is_case_sensitive:
  assumes "ready e = None"
    and "fetch e (url a) fetch_init = Inr r"
    and "200 \<le> status r \<and> status r \<le> 299"
    and "content_type_header r = Some v"
    and "text_result r = Inr body"
  shows "((\<exists>pre post. v = pre @ lit ''text/html'' @ post) \<or>
          (\<exists>pre post. v = pre @ lit ''application/xhtml'' @ post) \<longrightarrow>
            snd (handler e a) = [Fetch_call (url a), Text_call, Convert_call body]) \<and>
         (\<not> ((\<exists>pre post. v = pre @ lit ''text/html'' @ post) \<or>
             (\<exists>pre post. v = pre @ lit ''application/xhtml'' @ post)) \<longrightarrow>
            snd (handler e a) = [Fetch_call (url a), Text_call])"
proof -
  have okr: "ok r" using assms(3) by (simp add: ok_def)
  have inc: "(\<exists>pre post. v = pre @ lit ''text/html'' @ post) \<or>
             (\<exists>pre post. v = pre @ lit ''application/xhtml'' @ post) \<longleftrightarrow>
             includes_str v (lit ''text/html'') \<or> includes_str v (lit ''application/xhtml'')"
    by (simp add: includes_str_iff sublist_def)
  show ?thesis
  proof (cases "includes_str v (lit ''text/html'') \<or> includes_str v (lit ''application/xhtml'')")
    case True
    then have "v \<noteq> []" by (auto simp: lit_def)
    with True have "snd (handler e a) = [Fetch_call (url a), Text_call, Convert_call body]"
      using assms(1,2,4,5) okr
      by (cases "convert e body conversion_options")
         (simp_all add: handler_def try_block_def Let_def)
    with True inc show ?thesis by simp
  next
    case False
    then have "\<forall>w. content_type_header r = Some w \<longrightarrow>
           \<not> includes_str w (lit ''text/html'') \<and> \<not> includes_str w (lit ''application/xhtml'')"
      using assms(4) by simp
    from handler_passthrough [OF assms(1,2) okr this assms(5)]
    have "snd (handler e a) = [Fetch_call (url a), Text_call]" by simp
    with False inc show ?thesis by simp
  qed
qed

theorem classification_is_case_sensitive_witness:
  "snd (handler (ex_env (ex_response 200 ''OK'' (Some ''application/xhtml+xml'') ''<p>Hi</p>'')
                   ''Hi'') ex_args) =
     [Fetch_call (lit ''https://example.com/''), Text_call, Convert_call (lit ''<p>Hi</p>'')] \<and>
   snd (handler (ex_env (ex_response 200 ''OK'' (Some ''Text/Html'') ''<p>Hi</p>'') ''Hi'')
          ex_args) =
     [Fetch_call (lit ''https://example.com/''), Text_call]"
proof -
  let ?r = "ex_response 200 ''OK'' (Some ''application/xhtml+xml'') ''<p>Hi</p>''"
  let ?e = "ex_env ?r ''Hi''"
  have h1: "ready ?e = None" by (simp add: ex_env_def)
  have h2: "fetch ?e (url ex_args) fetch_init = Inr ?r" by (simp add: ex_env_def)
  have h3: "200 \<le> status ?r \<and> status ?r \<le> 299" by (simp add: ex_response_def)
  have h4: "content_type_header ?r = Some (lit ''application/xhtml+xml'')"
    by (simp add: ex_response_def)
  have h5: "text_result ?r = Inr (lit ''<p>Hi</p>'')" by (simp add: ex_response_def)
  have "lit ''application/xhtml+xml'' = [] @ lit ''application/xhtml'' @ lit ''+xml''"
    by (simp add: lit_def)
  then have h6: "\<exists>pre post. lit ''application/xhtml+xml'' = pre @ lit ''application/xhtml'' @ post"
    by blast
  have u: "url ex_args = lit ''https://example.com/''" by (simp add: ex_args_def)
  have first: "snd (handler ?e ex_args) =
     [Fetch_call (lit ''https://example.com/''), Text_call, Convert_call (lit ''<p>Hi</p>'')]"
    using classification_is_case_sensitive [OF h1 h2 h3 h4 h5] h6 u by simp
  let ?r' = "ex_response 200 ''OK'' (Some ''Text/Html'') ''<p>Hi</p>''"
  let ?e' = "ex_env ?r' ''Hi''"
  have k1: "ready ?e' = None" by (simp add: ex_env_def)
  have k2: "fetch ?e' (url ex_args) fetch_init = Inr ?r'" by (simp add: ex_env_def)
  have k3: "200 \<le> status ?r' \<and> status ?r' \<le> 299" by (simp add: ex_response_def)
  have k4: "content_type_header ?r' = Some (lit ''Text/Html'')" by (simp add: ex_response_def)
  have k5: "text_result ?r' = Inr (lit ''<p>Hi</p>'')" by (simp add: ex_response_def)
  have "\<not> includes_str (lit ''Text/Html'') (lit ''text/html'') \<and>
        \<not> includes_str (lit ''Text/Html'') (lit ''application/xhtml'')"
    by code_simp
  then have k6: "\<not> ((\<exists>pre post. lit ''Text/Html'' = pre @ lit ''text/html'' @ post) \<or>
                   (\<exists>pre post. lit ''Text/Html'' = pre @ lit ''application/xhtml'' @ post))"
    by (simp add: includes_str_iff sublist_def)
  have second: "snd (handler ?e' ex_args) = [Fetch_call (lit ''https://example.com/''), Text_call]"
    using classification_is_case_sensitive [OF k1 k2 k3 k4 k5] k6 u by simp
  from first second show ?thesis by (rule conjI)
qed

text \<open>
  C6. The claim that no link of the converter's output is left does not hold. The scan is
  a single pass and does not look inside a match: in \<open>[[a](b)](b)\<close> the match starts at
  the first bracket and has the label \<open>[a\<close>, so the link \<open>[a](b)\<close>, which the converter's
  output contains, is the final text.
\<close>

theorem nested_link_survives_counterexample:
  "convert (ex_env (ex_response 200 ''OK'' (Some ''text/html'') ''<p>[<a href=b>a</a>](b)</p>'')
              ''[[a](b)](b)'') (lit ''<p>[<a href=b>a</a>](b)</p>'') conversion_options =
     Inr (lit ''[[a](b)](b)'') \<and>
   includes_str (lit ''[[a](b)](b)'') (lit ''[a](b)'') \<and>
   match_link (lit ''[a](b)'') = Some (lit ''a'', []) \<and>
   fst (handler (ex_env (ex_response 200 ''OK'' (Some ''text/html'') ''<p>[<a href=b>a</a>](b)</p>'')
                   ''[[a](b)](b)'') ex_args) =
     Returned \<lparr>content = [\<lparr>item_type = lit ''text'', item_text = lit ''[a](b)''\<rparr>],
               isError = None\<rparr>"
  by code_simp

text \<open>
  C6, as the code has it. Link stripping is one pass from left to right that replaces
  every match it meets by the label and copies the rest. Read the converter's output as
  the pass does: texts and links \<open>[label](target)\<close> in turn and a closing text, a label
  being one or more characters other than \<open>]\<close>, a target one or more characters other
  than \<open>)\<close>, and the expression matching at no position of a text in front of a link or
  of the closing text. With \<open>includeLinks\<close> false the text of the result is made of these
  texts and labels in their order, cleaned of white space and cut by the length limit. If
  moreover no label contains \<open>[\<close> or \<open>(\<close>, the expression matches nowhere in that final
  text. Every output of the converter has such a reading (\<open>scan_reading\<close>).
\<close>

theorem links_met_by_the_scan_are_stripped:
  assumes "includeLinks a = False"
    and "ready e = None"
    and "fetch e (url a) fetch_init = Inr r"
    and "200 \<le> status r \<and> status r \<le> 299"
    and "content_type_header r = Some v"
    and "includes_str v (lit ''text/html'') \<or> includes_str v (lit ''application/xhtml'')"
    and "text_result r = Inr html"
    and "convert e html conversion_options =
           Inr (concat (map (\<lambda>(pre, lab, tgt).
                               pre @ lit ''['' @ lab @ lit '']('' @ tgt @ lit '')'') segs)
                @ end_text)"
    and "\<forall>ps pre lab tgt ss. segs = ps @ (pre, lab, tgt) # ss \<longrightarrow>
           lab \<noteq> [] \<and> jschr CHR '']'' \<notin> set lab \<and> tgt \<noteq> [] \<and> jschr CHR '')'' \<notin> set tgt \<and>
           (\<forall>i<length pre.
              match_link
                (drop i (concat (map (\<lambda>(pre, lab, tgt).
                                        pre @ lit ''['' @ lab @ lit '']('' @ tgt @ lit '')'')
                                   ((pre, lab, tgt) # ss)) @ end_text)) = None)"
    and "\<forall>i. match_link (drop i end_text) = None"
    and "stripped = concat (map (\<lambda>(pre, lab, tgt). pre @ lab) segs) @ end_text"
  shows "\<exists>t. fst (handler e a) =
               Returned \<lparr>content = [\<lparr>item_type = lit ''text'', item_text = t\<rparr>],
                         isError = None\<rparr> \<and>
             (maxLength a = None \<longrightarrow> t = clean_whitespace stripped) \<and>
             (\<forall>m. maxLength a = Some m \<longrightarrow>
                t = (if truthy m \<and> length_gt (length (clean_whitespace stripped)) m
                     then substring0 (clean_whitespace stripped) m @ truncation_suffix
                     else clean_whitespace stripped)) \<and>
             ((\<forall>(pre, lab, tgt) \<in> set segs.
                 jschr CHR ''['' \<notin> set lab \<and> jschr CHR ''('' \<notin> set lab) \<longrightarrow>
              (\<forall>i. match_link (drop i t) = None))"
proof -
  let ?md = "concat (map (\<lambda>(pre, lab, tgt).
                            pre @ lit ''['' @ lab @ lit '']('' @ tgt @ lit '')'') segs) @ end_text"
  let ?c = "clean_whitespace stripped"
  let ?t = "case maxLength a of
              None \<Rightarrow> ?c
            | Some m \<Rightarrow>
                if truthy m \<and> length_gt (length ?c) m
                then substring0 ?c m @ truncation_suffix else ?c"
  have okr: "ok r" using assms(4) by (simp add: ok_def)
  have strip: "strip_links ?md = stripped"
    using strip_links_segments [OF assms(9,10)] assms(11) by simp
  have pick: "(if includeLinks a then ?md else strip_links ?md) = stripped"
    using assms(1) strip by (simp only: if_False)
  have res: "fst (handler e a) =
      Returned \<lparr>content = [\<lparr>item_type = lit ''text'', item_text = ?t\<rparr>], isError = None\<rparr>"
    unfolding handler_html [OF assms(2,3) okr assms(5,6,7,8)] pick text_item_def
    by (simp only: fst_conv)
  have free: "\<forall>i. match_link (drop i ?t) = None"
    if lab: "\<forall>(pre, lab, tgt) \<in> set segs.
               jschr CHR ''['' \<notin> set lab \<and> jschr CHR ''('' \<notin> set lab"
  proof -
    have "\<forall>i. match_link (drop i stripped) = None"
      using stripped_segments_unmatched [OF assms(9,10) lab] assms(11) by simp
    then have c: "\<forall>i. match_link (drop i ?c) = None"
      by (rule unmatched_clean_whitespace)
    show ?thesis
    proof (cases "maxLength a")
      case None
      with c show ?thesis by simp
    next
      case (Some m)
      from substring0_take [of ?c m] obtain k where k: "substring0 ?c m = take k ?c" ..
      from unmatched_truncated [OF c, of k] c k Some show ?thesis by simp
    qed
  qed
  from res free show ?thesis
    by (intro exI [of _ ?t]) (auto split: option.splits)
qed

theorem links_met_by_the_scan_are_stripped_witness:
  "fst (handler (ex_env (ex_response 200 ''OK'' (Some ''text/html'') ''<p>page</p>'')
                   ''[1] [a](b) or [c](d).'') ex_args) =
     Returned \<lparr>content = [\<lparr>item_type = lit ''text'', item_text = lit ''[1] a or c.''\<rparr>],
               isError = None\<rparr> \<and>
   (\<forall>i. match_link (drop i (lit ''[1] a or c.'')) = None)"
proof -
  let ?r = "ex_response 200 ''OK'' (Some ''text/html'') ''<p>page</p>''"
  let ?e = "ex_env ?r ''[1] [a](b) or [c](d).''"
  let ?s1 = "(lit ''[1] '', lit ''a'', lit ''b'')"
  let ?s2 = "(lit '' or '', lit ''c'', lit ''d'')"
  let ?segs = "[?s1, ?s2]"
  let ?render = "\<lambda>(pre, lab, tgt). pre @ lit ''['' @ lab @ lit '']('' @ tgt @ lit '')''"
  have h1: "includeLinks ex_args = False" by (simp add: ex_args_def)
  have h2: "ready ?e = None" by (simp add: ex_env_def)
  have h3: "fetch ?e (url ex_args) fetch_init = Inr ?r" by (simp add: ex_env_def)
  have h4: "200 \<le> status ?r \<and> status ?r \<le> 299" by (simp add: ex_response_def)
  have h5: "content_type_header ?r = Some (lit ''text/html'')" by (simp add: ex_response_def)
  have h6: "includes_str (lit ''text/html'') (lit ''text/html'') \<or>
            includes_str (lit ''text/html'') (lit ''application/xhtml'')"
    by (simp add: includes_str_iff)
  have h7: "text_result ?r = Inr (lit ''<p>page</p>'')" by (simp add: ex_response_def)
  have h8: "convert ?e (lit ''<p>page</p>'') conversion_options =
              Inr (concat (map ?render ?segs) @ lit ''.'')"
    by (simp add: ex_env_def lit_def)
  have first: "\<forall>i<length (lit ''[1] ''). match_link
                 (drop i (concat (map ?render [?s1, ?s2]) @ lit ''.'')) = None"
    unfolding bounded_all_upt by code_simp
  have second: "\<forall>i<length (lit '' or ''). match_link
                 (drop i (concat (map ?render [?s2]) @ lit ''.'')) = None"
    unfolding bounded_all_upt by code_simp
  have h9: "\<forall>ps pre lab tgt ss. ?segs = ps @ (pre, lab, tgt) # ss \<longrightarrow>
           lab \<noteq> [] \<and> jschr CHR '']'' \<notin> set lab \<and> tgt \<noteq> [] \<and> jschr CHR '')'' \<notin> set tgt \<and>
           (\<forall>i<length pre.
              match_link
                (drop i (concat (map ?render ((pre, lab, tgt) # ss)) @ lit ''.'')) = None)"
  proof (intro allI impI)
    fix ps pre lab tgt ss
    assume "?segs = ps @ (pre, lab, tgt) # ss"
    then have "(pre, lab, tgt) = ?s1 \<and> ss = [?s2] \<or> (pre, lab, tgt) = ?s2 \<and> ss = []"
      by (cases ps; cases "tl ps") auto
    then show "lab \<noteq> [] \<and> jschr CHR '']'' \<notin> set lab \<and> tgt \<noteq> [] \<and> jschr CHR '')'' \<notin> set tgt \<and>
           (\<forall>i<length pre.
              match_link
                (drop i (concat (map ?render ((pre, lab, tgt) # ss)) @ lit ''.'')) = None)"
    proof
      assume "(pre, lab, tgt) = ?s1 \<and> ss = [?s2]"
      then have e: "pre = lit ''[1] ''" "lab = lit ''a''" "tgt = lit ''b''" "ss = [?s2]"
        by blast+
      have p: "lab \<noteq> []" "jschr CHR '']'' \<notin> set lab" "tgt \<noteq> []" "jschr CHR '')'' \<notin> set tgt"
        unfolding e by (simp_all add: lit_def jschr_def)
      have q: "\<forall>i<length pre.
              match_link
                (drop i (concat (map ?render ((pre, lab, tgt) # ss)) @ lit ''.'')) = None"
        unfolding e by (rule first)
      from p q show ?thesis by (intro conjI)
    next
      assume "(pre, lab, tgt) = ?s2 \<and> ss = []"
      then have e: "pre = lit '' or ''" "lab = lit ''c''" "tgt = lit ''d''" "ss = []"
        by blast+
      have p: "lab \<noteq> []" "jschr CHR '']'' \<notin> set lab" "tgt \<noteq> []" "jschr CHR '')'' \<notin> set tgt"
        unfolding e by (simp_all add: lit_def jschr_def)
      have q: "\<forall>i<length pre.
              match_link
                (drop i (concat (map ?render ((pre, lab, tgt) # ss)) @ lit ''.'')) = None"
        unfolding e by (rule second)
      from p q show ?thesis by (intro conjI)
    qed
  qed
  have "jschr CHR ''['' \<notin> set (lit ''.'')" by (simp add: lit_def jschr_def)
  then have h10: "\<forall>i. match_link (drop i (lit ''.'')) = None"
    using no_bracket_no_link by blast
  have h11: "lit ''[1] a or c.'' = concat (map (\<lambda>(pre, lab, tgt). pre @ lab) ?segs) @ lit ''.''"
    by (simp add: lit_def)
  have labs: "\<forall>(pre, lab, tgt) \<in> set ?segs.
                jschr CHR ''['' \<notin> set lab \<and> jschr CHR ''('' \<notin> set lab"
    by (simp add: lit_def jschr_def)
  have clean: "clean_whitespace (lit ''[1] a or c.'') = lit ''[1] a or c.''" by code_simp
  have none: "maxLength ex_args = None" by (simp add: ex_args_def)
  from links_met_by_the_scan_are_stripped [OF h1 h2 h3 h4 h5 h6 h7 h8 h9 h10 h11]
  show ?thesis
  proof (elim exE conjE)
    fix t
    assume res: "fst (handler ?e ex_args) =
               Returned \<lparr>content = [\<lparr>item_type = lit ''text'', item_text = t\<rparr>],
                         isError = None\<rparr>"
      and t: "maxLength ex_args = None \<longrightarrow> t = clean_whitespace (lit ''[1] a or c.'')"
      and free: "(\<forall>(pre, lab, tgt) \<in> set ?segs.
                 jschr CHR ''['' \<notin> set lab \<and> jschr CHR ''('' \<notin> set lab) \<longrightarrow>
              (\<forall>i. match_link (drop i t) = None)"
    from t none have "t = clean_whitespace (lit ''[1] a or c.'')" by (rule mp)
    with clean have eq: "t = lit ''[1] a or c.''" by (simp only:)
    from free labs have "\<forall>i. match_link (drop i t) = None" by (rule mp)
    with res show ?thesis unfolding eq by (rule conjI)
  qed
qed

text \<open>
  C7. The white space clean-up (runs of four or more line feeds become three, then the
  leading and the trailing white space are removed) is idempotent; the cleaned text
  neither starts nor ends with white space, and nowhere has four line feeds in a row.
\<close>

theorem clean_whitespace_idempotent:
  "clean_whitespace (clean_whitespace s) = clean_whitespace s \<and>
   (clean_whitespace s \<noteq> [] \<longrightarrow>
      \<not> is_space (hd (clean_whitespace s)) \<and> \<not> is_space (last (clean_whitespace s))) \<and>
   \<not> (\<exists>pre post. clean_whitespace s = pre @ [NL, NL, NL, NL] @ post)"
proof (intro conjI)
  show "clean_whitespace (clean_whitespace s) = clean_whitespace s"
    using clean_whitespace_id [OF clean_whitespace_no_run, of s] clean_whitespace_ends [of s]
    by blast
  show "clean_whitespace s \<noteq> [] \<longrightarrow>
      \<not> is_space (hd (clean_whitespace s)) \<and> \<not> is_space (last (clean_whitespace s))"
    using clean_whitespace_ends by blast
  show "\<not> (\<exists>pre post. clean_whitespace s = pre @ [NL, NL, NL, NL] @ post)"
    using clean_whitespace_no_run [of s] unfolding sublist_def by blast
qed

theorem clean_whitespace_idempotent_witness:
  "clean_whitespace ([NL, NL] @ lit '' a'' @ [NL, NL, NL, NL, NL] @ lit ''b  '' @ [NL]) =
     lit ''a'' @ [NL, NL, NL] @ lit ''b'' \<and>
   clean_whitespace (lit ''a'' @ [NL, NL, NL] @ lit ''b'') = lit ''a'' @ [NL, NL, NL] @ lit ''b'' \<and>
   \<not> is_space (hd (lit ''a'' @ [NL, NL, NL] @ lit ''b'')) \<and>
   \<not> is_space (last (lit ''a'' @ [NL, NL, NL] @ lit ''b''))"
proof -
  let ?s = "[NL, NL] @ lit '' a'' @ [NL, NL, NL, NL, NL] @ lit ''b  '' @ [NL]"
  let ?t = "lit ''a'' @ [NL, NL, NL] @ lit ''b''"
  have run: "clean_whitespace ?s = ?t" by code_simp
  have ne: "?t \<noteq> []" by (simp add: lit_def)
  show ?thesis
    using clean_whitespace_idempotent [of ?s] ne unfolding run by blast
qed




text \<open>
  C9. With \<open>maxLength\<close> equal to 0 the guard \<open>maxLength && ...\<close> is false, so nothing is
  cut on either path: the passthrough returns the whole body and the HTML path the whole
  cleaned Markdown, whatever their length.
\<close>

theorem zero_maxLength_skips_truncation:
  assumes "maxLength a = Some (Num 0)"
    and "ready e = None"
    and "fetch e (url a) fetch_init = Inr r"
    and "200 \<le> status r \<and> status r \<le> 299"
    and "text_result r = Inr body"
  shows "((\<forall>v. content_type_header r = Some v \<longrightarrow>
             \<not> includes_str v (lit ''text/html'') \<and>
             \<not> includes_str v (lit ''application/xhtml'')) \<longrightarrow>
          fst (handler e a) =
            Returned \<lparr>content = [\<lparr>item_type = lit ''text'', item_text = body\<rparr>],
                      isError = None\<rparr>) \<and>
         (\<forall>v md. content_type_header r = Some v \<and>
                 (includes_str v (lit ''text/html'') \<or> includes_str v (lit ''application/xhtml'')) \<and>
                 convert e body conversion_options = Inr md \<longrightarrow>
          fst (handler e a) =
            Returned \<lparr>content =
                        [\<lparr>item_type = lit ''text'',
                          item_text =
                            clean_whitespace (if includeLinks a then md else strip_links md)\<rparr>],
                      isError = None\<rparr>)"
proof -
  have okr: "ok r" using assms(4) by (simp add: ok_def)
  show ?thesis
  proof (intro conjI impI allI)
    assume "\<forall>v. content_type_header r = Some v \<longrightarrow>
             \<not> includes_str v (lit ''text/html'') \<and>
             \<not> includes_str v (lit ''application/xhtml'')"
    from handler_passthrough [OF assms(2,3) okr this assms(5)]
    show "fst (handler e a) =
            Returned \<lparr>content = [\<lparr>item_type = lit ''text'', item_text = body\<rparr>],
                      isError = None\<rparr>"
      by (simp add: assms(1) text_item_def)
  next
    fix v md
    assume h: "content_type_header r = Some v \<and>
                 (includes_str v (lit ''text/html'') \<or> includes_str v (lit ''application/xhtml'')) \<and>
                 convert e body conversion_options = Inr md"
    then have v: "content_type_header r = Some v"
      and inc: "includes_str v (lit ''text/html'') \<or> includes_str v (lit ''application/xhtml'')"
      and md: "convert e body conversion_options = Inr md"
      by simp_all
    from handler_html [OF assms(2,3) okr v inc assms(5) md]
    show "fst (handler e a) =
            Returned \<lparr>content =
                        [\<lparr>item_type = lit ''text'',
                          item_text =
                            clean_whitespace (if includeLinks a then md else strip_links md)\<rparr>],
                      isError = None\<rparr>"
      by (simp add: assms(1) text_item_def)
  qed
qed

theorem zero_maxLength_skips_truncation_witness:
  "fst (handler (ex_env (ex_response 200 ''OK'' (Some ''text/plain'') ''some long text'') ''x'')
          (ex_args\<lparr>maxLength := Some (Num 0)\<rparr>)) =
     Returned \<lparr>content = [\<lparr>item_type = lit ''text'', item_text = lit ''some long text''\<rparr>],
               isError = None\<rparr> \<and>
   fst (handler (ex_env (ex_response 200 ''OK'' (Some ''text/html; charset=utf-8'')
                           ''<p>Hello <a href=x>link</a></p>'') ''Hello [link](x)'')
          (ex_args\<lparr>maxLength := Some (Num 0)\<rparr>)) =
     Returned \<lparr>content = [\<lparr>item_type = lit ''text'', item_text = lit ''Hello link''\<rparr>],
               isError = None\<rparr>"
proof -
  let ?a = "ex_args\<lparr>maxLength := Some (Num 0)\<rparr>"
  let ?r = "ex_response 200 ''OK'' (Some ''text/plain'') ''some long text''"
  let ?e = "ex_env ?r ''x''"
  have h1: "maxLength ?a = Some (Num 0)" by simp
  have h2: "ready ?e = None" by (simp add: ex_env_def)
  have h3: "fetch ?e (url ?a) fetch_init = Inr ?r" by (simp add: ex_env_def)
  have h4: "200 \<le> status ?r \<and> status ?r \<le> 299" by (simp add: ex_response_def)
  have h5: "text_result ?r = Inr (lit ''some long text'')" by (simp add: ex_response_def)
  have h6: "\<forall>v. content_type_header ?r = Some v \<longrightarrow>
             \<not> includes_str v (lit ''text/html'') \<and>
             \<not> includes_str v (lit ''application/xhtml'')"
    by (simp add: ex_response_def) code_simp
  have first: "fst (handler ?e ?a) =
     Returned \<lparr>content = [\<lparr>item_type = lit ''text'', item_text = lit ''some long text''\<rparr>],
               isError = None\<rparr>"
    using zero_maxLength_skips_truncation [OF h1 h2 h3 h4 h5] h6 by blast
  let ?r' = "ex_response 200 ''OK'' (Some ''text/html; charset=utf-8'')
               ''<p>Hello <a href=x>link</a></p>''"
  let ?e' = "ex_env ?r' ''Hello [link](x)''"
  have k2: "ready ?e' = None" by (simp add: ex_env_def)
  have k3: "fetch ?e' (url ?a) fetch_init = Inr ?r'" by (simp add: ex_env_def)
  have k4: "200 \<le> status ?r' \<and> status ?r' \<le> 299" by (simp add: ex_response_def)
  have k5: "text_result ?r' = Inr (lit ''<p>Hello <a href=x>link</a></p>'')"
    by (simp add: ex_response_def)
  have k6: "content_type_header ?r' = Some (lit ''text/html; charset=utf-8'') \<and>
            (includes_str (lit ''text/html; charset=utf-8'') (lit ''text/html'') \<or>
             includes_str (lit ''text/html; charset=utf-8'') (lit ''application/xhtml'')) \<and>
            convert ?e' (lit ''<p>Hello <a href=x>link</a></p>'') conversion_options =
              Inr (lit ''Hello [link](x)'')"
    by (simp add: ex_response_def ex_env_def) code_simp
  have k7: "clean_whitespace
              (if includeLinks ?a then lit ''Hello [link](x)''
               else strip_links (lit ''Hello [link](x)'')) = lit ''Hello link''"
    by code_simp
  have second: "fst (handler ?e' ?a) =
     Returned \<lparr>content = [\<lparr>item_type = lit ''text'', item_text = lit ''Hello link''\<rparr>],
               isError = None\<rparr>"
    using zero_maxLength_skips_truncation [OF h1 k2 k3 k4 k5] k6 k7 by metis
  from first second show ?thesis by (rule conjI)
qed

text \<open>
  C10. A link with an empty label is not a match, since the label needs at least one
  character other than \<open>]\<close>. So link stripping leaves the text \<open>[](target)\<close> as it is
  when the target has no \<open>[\<close>, and with \<open>includeLinks\<close> false that text, coming from the
  converter, is the text of the result.
\<close>

theorem empty_label_link_is_kept:
  assumes "jschr CHR ''['' \<notin> set target"
  shows "match_link (lit ''[]('' @ target @ lit '')'' @ rest) = None \<and>
         strip_links (lit ''[]('' @ target @ lit '')'') = lit ''[]('' @ target @ lit '')'' \<and>
         (NL \<notin> set target \<and> includeLinks a = False \<and> maxLength a = None \<and> ready e = None \<and>
          fetch e (url a) fetch_init = Inr r \<and> 200 \<le> status r \<and> status r \<le> 299 \<and>
          content_type_header r = Some (lit ''text/html'') \<and> text_result r = Inr html \<and>
          convert e html conversion_options = Inr (lit ''[]('' @ target @ lit '')'') \<longrightarrow>
          fst (handler e a) =
            Returned \<lparr>content =
                        [\<lparr>item_type = lit ''text'',
                          item_text = lit ''[]('' @ target @ lit '')''\<rparr>],
                      isError = None\<rparr>)"
proof (intro conjI impI)
  let ?x = "lit ''[]('' @ target @ lit '')''"
  show "match_link (lit ''[]('' @ target @ lit '')'' @ rest) = None"
    by (simp add: lit_def match_link_empty_label)
  have nb: "jschr CHR ''['' \<notin> set (lit '']('' @ target @ lit '')'')"
    using assms by (simp add: lit_def jschr_def)
  have "strip_links (jschr CHR ''['' # lit '']('' @ target @ lit '')'') =
        jschr CHR ''['' # strip_links (lit '']('' @ target @ lit '')'')"
    by (simp add: lit_def match_link_empty_label)
  with strip_links_plain [OF nb] show strip: "strip_links ?x = ?x"
    by (simp add: lit_def)
  assume h: "NL \<notin> set target \<and> includeLinks a = False \<and> maxLength a = None \<and> ready e = None \<and>
          fetch e (url a) fetch_init = Inr r \<and> 200 \<le> status r \<and> status r \<le> 299 \<and>
          content_type_header r = Some (lit ''text/html'') \<and> text_result r = Inr html \<and>
          convert e html conversion_options = Inr (lit ''[]('' @ target @ lit '')'')"
  then have okr: "ok r" by (simp add: ok_def)
  have inc: "includes_str (lit ''text/html'') (lit ''text/html'') \<or>
             includes_str (lit ''text/html'') (lit ''application/xhtml'')"
    by (simp add: includes_str_iff)
  have "NL \<notin> set ?x" using h by (simp add: lit_def jschr_def NL_def)
  then have norun: "\<not> sublist [NL, NL, NL, NL] ?x"
    using set_mono_sublist by fastforce
  have ends: "?x = [] \<or> \<not> is_space (hd ?x) \<and> \<not> is_space (last ?x)"
    by (simp add: lit_def jschr_def is_space_def)
  have "clean_whitespace ?x = ?x"
    using norun ends by (rule clean_whitespace_id)
  with handler_html [of e a r "lit ''text/html''" html ?x] h okr inc strip
  show "fst (handler e a) =
            Returned \<lparr>content = [\<lparr>item_type = lit ''text'', item_text = ?x\<rparr>], isError = None\<rparr>"
    by (simp add: text_item_def)
qed

theorem empty_label_link_is_kept_witness:
  "strip_links (lit ''[](url)'') = lit ''[](url)'' \<and>
   fst (handler (ex_env (ex_response 200 ''OK'' (Some ''text/html'') ''<a href=url></a>'')
                   ''[](url)'') ex_args) =
     Returned \<lparr>content = [\<lparr>item_type = lit ''text'', item_text = lit ''[](url)''\<rparr>],
               isError = None\<rparr>"
proof -
  let ?r = "ex_response 200 ''OK'' (Some ''text/html'') ''<a href=url></a>''"
  let ?e = "ex_env ?r ''[](url)''"
  have h: "jschr CHR ''['' \<notin> set (lit ''url'')" by (simp add: lit_def jschr_def)
  have x: "lit ''[]('' @ lit ''url'' @ lit '')'' = lit ''[](url)''" by (simp add: lit_def)
  have g: "NL \<notin> set (lit ''url'') \<and> includeLinks ex_args = False \<and> maxLength ex_args = None \<and>
          ready ?e = None \<and> fetch ?e (url ex_args) fetch_init = Inr ?r \<and>
          200 \<le> status ?r \<and> status ?r \<le> 299 \<and>
          content_type_header ?r = Some (lit ''text/html'') \<and>
          text_result ?r = Inr (lit ''<a href=url></a>'') \<and>
          convert ?e (lit ''<a href=url></a>'') conversion_options =
            Inr (lit ''[]('' @ lit ''url'' @ lit '')'')"
    by (simp add: ex_args_def ex_env_def ex_response_def lit_def jschr_def NL_def)
  show ?thesis
    using empty_label_link_is_kept [OF h, of "[]" ex_args ?e ?r "lit ''<a href=url></a>''"] g
    unfolding x by blast
qed

end
